theory Spec2Isabelle
  imports Main "HOL-Library.Word"
begin

unbundle bit_operations_syntax

section \<open>Data model of instr.c\<close>

text \<open>
  A buffer is the sequence of storage units behind a C pointer: bytes
  (\<open>unsigned char\<close>) for BLOB and UTF-8 values, 16-bit units
  (\<open>unsigned short\<close>) for UTF-16 values. A cursor into a buffer is the offset of
  the C pointer from the start of the buffer.

  \<open>vsize\<close> is \<open>unsigned int\<close>. Every size handed to the engines is the length of
  a buffer reported by \<open>sqlite3_value_bytes\<close> (an \<open>int\<close>, so below \<open>2^31\<close>), and
  every subtraction on a size in the engines stands behind a comparison that
  keeps it from wrapping (a skip is at most \<open>needlesize\<close>, which is at most
  \<open>stacksize\<close> where it is subtracted); sizes are embedded as \<open>nat\<close>.
  \<open>sqlite3_int64\<close> positions are embedded as \<open>int\<close>: on every path that
  returns, \<open>found\<close> lies between 0 and the buffer length plus one.

  An engine is embedded with the result type \<open>(fault + int) option\<close>:
  \<open>Some (Inr r)\<close> when the C function returns \<open>r\<close>, \<open>Some (Inl OutOfBounds)\<close>
  when it reads outside the haystack or the needle, and \<open>None\<close> when it does not
  return. Every \<open>while\<close> and \<open>for (;;)\<close> loop is a recursive function of its own,
  over the variables that the loop changes.
\<close>

type_synonym byte = "8 word"
type_synonym unit16 = "16 word"
type_synonym bmh_skips = "byte \<Rightarrow> nat"

text \<open>A read through a pointer outside its buffer has no defined behaviour in C.\<close>

datatype fault = OutOfBounds

definition peek :: "'a list \<Rightarrow> nat \<Rightarrow> fault + 'a" where
  "peek buf i = (if i < length buf then Inr (buf ! i) else Inl OutOfBounds)"

text \<open>\<open>!memcmp(haystack, needle, needlesize)\<close>: are the \<open>needlesize\<close> units at
  the cursor equal to the needle?\<close>

definition memcmp_eq :: "'a list \<Rightarrow> nat \<Rightarrow> 'a list \<Rightarrow> fault + bool" where
  "memcmp_eq buf haystack needle =
     (if haystack + length needle \<le> length buf
      then Inr (take (length needle) (drop haystack buf) = needle)
      else Inl OutOfBounds)"

definition INT64_MAX :: int where
  "INT64_MAX = 0x7FFFFFFFFFFFFFFF"

section \<open>Skip tables\<close>

text \<open>
  \<open>fbmh_setup\<close> and \<open>rbmh_setup\<close> fill the 256 entries with \<open>needlesize\<close>,
  overwrite the entries of the needle's bytes in a loop over \<open>ix\<close> (upwards
  from 0 to \<open>limit - 1\<close>, respectively downwards from \<open>limit\<close> to 1), and round
  every entry when \<open>mask\<close> is not 0. The engines call them with
  \<open>needlesize > 1\<close> only, so \<open>limit = needlesize-1\<close> does not wrap.

  \<open>skips[c] = skips[c]+mask & ~mask\<close> is \<open>(skips[c]+mask) & ~mask\<close>, on values that
  stay below \<open>2^32\<close>.
\<close>

definition mask_skip :: "nat \<Rightarrow> nat \<Rightarrow> nat" where
  "mask_skip msk v = nat ((int v + int msk) AND NOT (int msk))"

definition fbmh_setup :: "byte list \<Rightarrow> nat \<Rightarrow> bmh_skips" where
  "fbmh_setup needle msk =
     (let needlesize = length needle;
          limit = needlesize - 1;
          skips = fold (\<lambda>ix sk. sk(needle ! ix := limit - ix)) [0..<limit] (\<lambda>c. needlesize)
      in if msk \<noteq> 0 then (\<lambda>c. mask_skip msk (skips c)) else skips)"

definition rbmh_setup :: "byte list \<Rightarrow> nat \<Rightarrow> bmh_skips" where
  "rbmh_setup needle msk =
     (let needlesize = length needle;
          limit = needlesize - 1;
          skips = fold (\<lambda>ix sk. sk(needle ! ix := ix)) (rev [1..<Suc limit]) (\<lambda>c. needlesize)
      in if msk \<noteq> 0 then (\<lambda>c. mask_skip msk (skips c)) else skips)"

section \<open>Raw (BLOB) engines\<close>

text \<open>The Horspool loop of \<open>instr_blob\<close> (\<open>needlesize>1\<close>).\<close>

partial_function (option) instr_blob_horspool ::
  "byte list \<Rightarrow> byte list \<Rightarrow> bmh_skips \<Rightarrow> nat \<Rightarrow> nat \<Rightarrow> int \<Rightarrow> (fault + int) option" where
  "instr_blob_horspool buf needle skips haystack stacksize found =
     (if stacksize \<ge> length needle then
        (case memcmp_eq buf haystack needle of
           Inl e \<Rightarrow> Some (Inl e)
         | Inr eq \<Rightarrow>
             if eq then Some (Inr found)
             else (case peek buf (haystack + (length needle - 1)) of
                     Inl e \<Rightarrow> Some (Inl e)
                   | Inr c \<Rightarrow>
                       instr_blob_horspool buf needle skips
                         (haystack + skips c) (stacksize - skips c) (found + int (skips c))))
      else Some (Inr 0))"

text \<open>The linear loop of \<open>instr_blob\<close> (\<open>needlesize = 1\<close>).\<close>

partial_function (option) instr_blob_linear ::
  "byte list \<Rightarrow> byte \<Rightarrow> nat \<Rightarrow> nat \<Rightarrow> int \<Rightarrow> (fault + int) option" where
  "instr_blob_linear buf first haystack stacksize found =
     (if stacksize > 0 then
        (case peek buf haystack of
           Inl e \<Rightarrow> Some (Inl e)
         | Inr c \<Rightarrow>
             if c = first then Some (Inr found)
             else instr_blob_linear buf first (haystack + 1) (stacksize - 1) (found + 1))
      else Some (Inr 0))"

definition instr_blob :: "byte list \<Rightarrow> byte list \<Rightarrow> int \<Rightarrow> (fault + int) option" where
  "instr_blob buf needle start =
     (let needlesize = length needle in
      if start > 1 \<and> start - 1 > int (length buf) then Some (Inr 0)
      else
        let found = (if start > 1 then start else 1);
            haystack = (if start > 1 then nat (start - 1) else 0);
            stacksize = length buf - haystack
        in if needlesize > stacksize then Some (Inr 0)
           else if needlesize \<le> 0 then Some (Inr found)
           else if needlesize > 1 then
             instr_blob_horspool buf needle (fbmh_setup needle 0) haystack stacksize found
           else instr_blob_linear buf (needle ! 0) haystack stacksize found)"

text \<open>The Horspool loop of \<open>rinstr_blob\<close> (\<open>needlesize>1\<close>).\<close>

partial_function (option) rinstr_blob_horspool ::
  "byte list \<Rightarrow> byte list \<Rightarrow> bmh_skips \<Rightarrow> nat \<Rightarrow> nat \<Rightarrow> int \<Rightarrow> (fault + int) option" where
  "rinstr_blob_horspool buf needle skips haystack stacksize found =
     (case memcmp_eq buf haystack needle of
        Inl e \<Rightarrow> Some (Inl e)
      | Inr eq \<Rightarrow>
          if eq then Some (Inr found)
          else (case peek buf haystack of
                  Inl e \<Rightarrow> Some (Inl e)
                | Inr c \<Rightarrow>
                    if skips c > stacksize then Some (Inr 0)
                    else rinstr_blob_horspool buf needle skips
                           (haystack - skips c) (stacksize - skips c) (found - int (skips c))))"

text \<open>The linear loop of \<open>rinstr_blob\<close> (\<open>needlesize = 1\<close>).\<close>

partial_function (option) rinstr_blob_linear ::
  "byte list \<Rightarrow> byte \<Rightarrow> nat \<Rightarrow> nat \<Rightarrow> int \<Rightarrow> (fault + int) option" where
  "rinstr_blob_linear buf first haystack stacksize found =
     (case peek buf haystack of
        Inl e \<Rightarrow> Some (Inl e)
      | Inr c \<Rightarrow>
          if c = first then Some (Inr found)
          else if stacksize \<le> 0 then Some (Inr 0)
          else rinstr_blob_linear buf first (haystack - 1) (stacksize - 1) (found - 1))"

definition rinstr_blob :: "byte list \<Rightarrow> byte list \<Rightarrow> int \<Rightarrow> (fault + int) option" where
  "rinstr_blob buf needle start =
     (let needlesize = length needle in
      if start \<le> 0 then Some (Inr 0)
      else if needlesize > length buf then Some (Inr 0)
      else
        let start' = (if start > 1 \<and> start - 1 > int (length buf - needlesize)
                      then int (length buf - needlesize + 1) else start);
            found = (if start > 1 then start' else 1);
            stacksize = (if start > 1 then nat (start' - 1) else 0);
            haystack = stacksize
        in if needlesize \<le> 0 then Some (Inr found)
           else if needlesize > 1 then
             rinstr_blob_horspool buf needle (rbmh_setup needle 0) haystack stacksize found
           else rinstr_blob_linear buf (needle ! 0) haystack stacksize found)"


section \<open>Encoding cursors\<close>

text \<open>
  The four cursor macros work on \<open>unsigned int\<close> locals; \<open>cp\<close> is the caller's
  \<open>int\<close>. Each returns the cursor, the size and \<open>cp\<close> as the macro leaves them:
  on the final \<open>else\<close> only \<open>cp\<close> changes (to \<open>-1\<close>). The branches are
  nested here in the order in which the \<open>&&\<close> chains evaluate, so that every
  read stands behind the tests that precede it in the source. In
  \<open>UTF8_ADVANCE\<close> the lead-byte ranges of the branches are disjoint: a branch
  whose lead-byte test holds and whose later test fails ends in the final
  \<open>else\<close>. The parameter \<open>size\<close> of the macros is \<open>sz\<close> here.
\<close>

definition load8 :: "byte list \<Rightarrow> nat \<Rightarrow> fault + 32 word" where
  "load8 buf i = (case peek buf i of Inl e \<Rightarrow> Inl e | Inr b \<Rightarrow> Inr (ucast b))"

definition load16 :: "unit16 list \<Rightarrow> nat \<Rightarrow> fault + 32 word" where
  "load16 buf i = (case peek buf i of Inl e \<Rightarrow> Inl e | Inr u \<Rightarrow> Inr (ucast u))"

text \<open>\<open>ptr[-k]\<close>: a read \<open>k\<close> units before the cursor.\<close>

definition load8_back :: "byte list \<Rightarrow> nat \<Rightarrow> nat \<Rightarrow> fault + 32 word" where
  "load8_back buf ptr k = (if k \<le> ptr then load8 buf (ptr - k) else Inl OutOfBounds)"

definition load16_back :: "unit16 list \<Rightarrow> nat \<Rightarrow> nat \<Rightarrow> fault + 32 word" where
  "load16_back buf ptr k = (if k \<le> ptr then load16 buf (ptr - k) else Inl OutOfBounds)"

definition UTF8_ADVANCE :: "byte list \<Rightarrow> nat \<Rightarrow> nat \<Rightarrow> fault + (nat \<times> nat \<times> int)" where
  "UTF8_ADVANCE buf ptr sz =
     (if sz \<ge> 1 then
        (case load8 buf ptr of Inl e \<Rightarrow> Inl e | Inr c0 \<Rightarrow>
         if c0 < 0x80 then Inr (ptr + 1, sz - 1, uint c0)
         else if sz \<ge> 2 \<and> c0 \<ge> 0xC2 \<and> c0 < 0xE0 then
           (case load8 buf (ptr + 1) of Inl e \<Rightarrow> Inl e | Inr c1 \<Rightarrow>
            if c1 \<ge> 0x80 \<and> c1 < 0xC0
            then Inr (ptr + 2, sz - 2, uint (push_bit 6 c0 AND 0x7C0 OR c1 AND 0x3F))
            else Inr (ptr, sz, -1))
         else if sz \<ge> 3 \<and> c0 \<ge> 0xE0 \<and> c0 < 0xF0 then
           (case load8 buf (ptr + 1) of Inl e \<Rightarrow> Inl e | Inr c1 \<Rightarrow>
            if c1 \<ge> 0x80 \<and> c1 < 0xC0 then
              (case load8 buf (ptr + 2) of Inl e \<Rightarrow> Inl e | Inr c2 \<Rightarrow>
               let cp = push_bit 12 c0 AND 0xF000 OR push_bit 6 c1 AND 0xFC0 OR c2 AND 0x3F in
               if c2 \<ge> 0x80 \<and> c2 < 0xC0 \<and> cp \<ge> 0x800 \<and> (cp < 0xD800 \<or> cp \<ge> 0xE000)
               then Inr (ptr + 3, sz - 3, uint cp)
               else Inr (ptr, sz, -1))
            else Inr (ptr, sz, -1))
         else if sz \<ge> 4 \<and> c0 \<ge> 0xF0 \<and> c0 < 0xF5 then
           (case load8 buf (ptr + 1) of Inl e \<Rightarrow> Inl e | Inr c1 \<Rightarrow>
            if c1 \<ge> 0x80 \<and> c1 < 0xC0 then
              (case load8 buf (ptr + 2) of Inl e \<Rightarrow> Inl e | Inr c2 \<Rightarrow>
               if c2 \<ge> 0x80 \<and> c2 < 0xC0 then
                 (case load8 buf (ptr + 3) of Inl e \<Rightarrow> Inl e | Inr c3 \<Rightarrow>
                  let cp = push_bit 18 c0 AND 0x1C0000 OR push_bit 12 c1 AND 0x3F000
                             OR push_bit 6 c2 AND 0xFC0 OR c3 AND 0x3F in
                  if c3 \<ge> 0x80 \<and> c3 < 0xC0 \<and> cp \<ge> 0x10000 \<and> cp < 0x110000
                  then Inr (ptr + 4, sz - 4, uint cp)
                  else Inr (ptr, sz, -1))
               else Inr (ptr, sz, -1))
            else Inr (ptr, sz, -1))
         else Inr (ptr, sz, -1))
      else Inr (ptr, sz, -1))"

text \<open>
  In \<open>UTF8_RETREAT\<close> the third and fourth branches repeat the test
  \<open>c2>=0xC2 && c2<0xE0\<close> of the second branch (and the fourth asks the same of
  \<open>c3\<close>); they are kept as the source has them, behind the failed second branch.
\<close>

definition UTF8_RETREAT :: "byte list \<Rightarrow> nat \<Rightarrow> nat \<Rightarrow> fault + (nat \<times> nat \<times> int)" where
  "UTF8_RETREAT buf ptr sz =
     (if sz \<ge> 1 then
        (case load8_back buf ptr 1 of Inl e \<Rightarrow> Inl e | Inr c1 \<Rightarrow>
         if c1 < 0x80 then Inr (ptr - 1, sz - 1, uint c1)
         else if sz \<ge> 2 \<and> c1 \<ge> 0x80 \<and> c1 < 0xC0 then
           (case load8_back buf ptr 2 of Inl e \<Rightarrow> Inl e | Inr c2 \<Rightarrow>
            if c2 \<ge> 0xC2 \<and> c2 < 0xE0
            then Inr (ptr - 2, sz - 2, uint (push_bit 6 c2 AND 0x7C0 OR c1 AND 0x3F))
            else if sz \<ge> 3 \<and> c1 \<ge> 0x80 \<and> c1 < 0xC0 \<and> c2 \<ge> 0xC2 \<and> c2 < 0xE0 then
              (case load8_back buf ptr 3 of Inl e \<Rightarrow> Inl e | Inr c3 \<Rightarrow>
               let cp = push_bit 12 c3 AND 0xF000 OR push_bit 6 c2 AND 0xFC0 OR c1 AND 0x3F in
               if c3 \<ge> 0xE0 \<and> c3 < 0xF0 \<and> cp \<ge> 0x800 \<and> (cp < 0xD800 \<or> cp \<ge> 0xE000)
               then Inr (ptr - 3, sz - 3, uint cp)
               else if sz \<ge> 4 \<and> c1 \<ge> 0x80 \<and> c1 < 0xC0 \<and> c2 \<ge> 0xC2 \<and> c2 < 0xE0
                       \<and> c3 \<ge> 0xC2 \<and> c3 < 0xE0 then
                 (case load8_back buf ptr 4 of Inl e \<Rightarrow> Inl e | Inr c4 \<Rightarrow>
                  let cp = push_bit 18 c4 AND 0x1C0000 OR push_bit 12 c3 AND 0x3F000
                             OR push_bit 6 c2 AND 0xFC0 OR c1 AND 0x3F in
                  if c4 \<ge> 0xF0 \<and> c4 < 0xF5 \<and> cp \<ge> 0x10000 \<and> cp < 0x110000
                  then Inr (ptr - 4, sz - 4, uint cp)
                  else Inr (ptr, sz, -1))
               else Inr (ptr, sz, -1))
            else Inr (ptr, sz, -1))
         else Inr (ptr, sz, -1))
      else Inr (ptr, sz, -1))"

text \<open>The UTF-16 cursors move over 16-bit units; \<open>size\<close> counts bytes.\<close>

definition UTF16_ADVANCE :: "unit16 list \<Rightarrow> nat \<Rightarrow> nat \<Rightarrow> fault + (nat \<times> nat \<times> int)" where
  "UTF16_ADVANCE buf ptr sz =
     (if sz \<ge> 2 then
        (case load16 buf ptr of Inl e \<Rightarrow> Inl e | Inr c0 \<Rightarrow>
         if c0 < 0xD800 \<or> c0 \<ge> 0xE000 then Inr (ptr + 1, sz - 2, uint c0)
         else if sz \<ge> 4 \<and> c0 \<ge> 0xD800 \<and> c0 < 0xDC00 then
           (case load16 buf (ptr + 1) of Inl e \<Rightarrow> Inl e | Inr c1 \<Rightarrow>
            if c1 \<ge> 0xDC00 \<and> c1 < 0xE000
            then Inr (ptr + 2, sz - 4,
                      uint (push_bit 10 (c0 + 0x40) AND 0x1FFC00 OR c1 AND 0x3FF))
            else Inr (ptr, sz, -1))
         else Inr (ptr, sz, -1))
      else Inr (ptr, sz, -1))"

text \<open>The surrogate-pair branch of \<open>UTF16_RETREAT\<close> has \<open>ptr += 2\<close>.\<close>

definition UTF16_RETREAT :: "unit16 list \<Rightarrow> nat \<Rightarrow> nat \<Rightarrow> fault + (nat \<times> nat \<times> int)" where
  "UTF16_RETREAT buf ptr sz =
     (if sz \<ge> 2 then
        (case load16_back buf ptr 1 of Inl e \<Rightarrow> Inl e | Inr c1 \<Rightarrow>
         if c1 < 0xD800 \<or> c1 \<ge> 0xE000 then Inr (ptr - 1, sz - 2, uint c1)
         else if sz \<ge> 4 \<and> c1 \<ge> 0xDC00 \<and> c1 < 0xE000 then
           (case load16_back buf ptr 2 of Inl e \<Rightarrow> Inl e | Inr c2 \<Rightarrow>
            if c2 \<ge> 0xD800 \<and> c2 < 0xDC00
            then Inr (ptr + 2, sz - 4,
                      uint (push_bit 10 (c2 + 0x40) AND 0x1FFC00 OR c1 AND 0x3FF))
            else Inr (ptr, sz, -1))
         else Inr (ptr, sz, -1))
      else Inr (ptr, sz, -1))"

section \<open>Forward text engines\<close>

text \<open>
  A loop of an engine either leaves the function with \<open>return\<close> or falls out
  of the loop with its variables.
\<close>

datatype 's flow = Returned int | Reached 's

text \<open>The first loop of \<open>instr_utf8\<close>: walk to position \<open>start\<close>.\<close>

partial_function (option) instr_utf8_seek ::
  "byte list \<Rightarrow> nat \<Rightarrow> int \<Rightarrow> nat \<Rightarrow> nat \<Rightarrow> int \<Rightarrow> (fault + (nat \<times> nat \<times> int) flow) option" where
  "instr_utf8_seek buf needlesize start haystack stacksize found =
     (if found < start \<and> stacksize > needlesize then
        (case UTF8_ADVANCE buf haystack stacksize of
           Inl e \<Rightarrow> Some (Inl e)
         | Inr (haystack', stacksize', codepoint) \<Rightarrow>
             if codepoint = -1 then Some (Inr (Returned (-1)))
             else instr_utf8_seek buf needlesize start haystack' stacksize' (found + 1))
      else Some (Inr (Reached (haystack, stacksize, found))))"

text \<open>The block under \<open>if (haystack>=next)\<close>: compare, else look up the skip.\<close>

definition instr_utf8_probe ::
  "byte list \<Rightarrow> byte list \<Rightarrow> bmh_skips \<Rightarrow> nat \<Rightarrow> nat \<Rightarrow> int \<Rightarrow> fault + nat flow" where
  "instr_utf8_probe buf needle skips haystack stacksize found =
     (case memcmp_eq buf haystack needle of
        Inl e \<Rightarrow> Inl e
      | Inr eq \<Rightarrow>
          if eq then Inr (Returned found)
          else (case peek buf (haystack + (length needle - 1)) of
                  Inl e \<Rightarrow> Inl e
                | Inr c \<Rightarrow>
                    if stacksize - skips c < length needle then Inr (Returned 0)
                    else Inr (Reached (haystack + skips c))))"

partial_function (option) instr_utf8_horspool ::
  "byte list \<Rightarrow> byte list \<Rightarrow> bmh_skips \<Rightarrow> nat \<Rightarrow> nat \<Rightarrow> nat \<Rightarrow> int \<Rightarrow> (fault + int) option" where
  "instr_utf8_horspool buf needle skips haystack stacksize next found =
     (if stacksize \<ge> length needle then
        (case (if haystack \<ge> next
               then instr_utf8_probe buf needle skips haystack stacksize found
               else Inr (Reached next)) of
           Inl e \<Rightarrow> Some (Inl e)
         | Inr (Returned r) \<Rightarrow> Some (Inr r)
         | Inr (Reached next') \<Rightarrow>
             (case UTF8_ADVANCE buf haystack stacksize of
                Inl e \<Rightarrow> Some (Inl e)
              | Inr (haystack', stacksize', codepoint) \<Rightarrow>
                  if codepoint = -1 then Some (Inr (-1))
                  else instr_utf8_horspool buf needle skips haystack' stacksize' next' (found + 1)))
      else Some (Inr 0))"

partial_function (option) instr_utf8_linear ::
  "byte list \<Rightarrow> byte \<Rightarrow> nat \<Rightarrow> nat \<Rightarrow> int \<Rightarrow> (fault + int) option" where
  "instr_utf8_linear buf first haystack stacksize found =
     (if stacksize > 0 then
        (case peek buf haystack of
           Inl e \<Rightarrow> Some (Inl e)
         | Inr c \<Rightarrow>
             if c = first then Some (Inr found)
             else (case UTF8_ADVANCE buf haystack stacksize of
                     Inl e \<Rightarrow> Some (Inl e)
                   | Inr (haystack', stacksize', codepoint) \<Rightarrow>
                       if codepoint = -1 then Some (Inr (-1))
                       else instr_utf8_linear buf first haystack' stacksize' (found + 1)))
      else Some (Inr 0))"

definition instr_utf8 :: "byte list \<Rightarrow> byte list \<Rightarrow> int \<Rightarrow> (fault + int) option" where
  "instr_utf8 buf needle start =
     (let needlesize = length needle in
      if needlesize > length buf then Some (Inr 0)
      else
        (case instr_utf8_seek buf needlesize start 0 (length buf) 1 of
           None \<Rightarrow> None
         | Some (Inl e) \<Rightarrow> Some (Inl e)
         | Some (Inr (Returned r)) \<Rightarrow> Some (Inr r)
         | Some (Inr (Reached (haystack, stacksize, found))) \<Rightarrow>
             if found < start then Some (Inr 0)
             else if needlesize \<le> 0 then Some (Inr found)
             else if needlesize > 1 then
               instr_utf8_horspool buf needle (fbmh_setup needle 0) haystack stacksize haystack found
             else instr_utf8_linear buf (needle ! 0) haystack stacksize found))"

text \<open>
  The UTF-16 engines index the skip table with single bytes of the haystack seen
  through \<open>(unsigned char const *)\<close>; which byte of a unit comes first is the
  machine's byte order.
\<close>

datatype endianness = LittleEndian | BigEndian

definition unit_bytes :: "endianness \<Rightarrow> unit16 \<Rightarrow> byte list" where
  "unit_bytes en u =
     (case en of
        LittleEndian \<Rightarrow> [ucast u, ucast (drop_bit 8 u)]
      | BigEndian \<Rightarrow> [ucast (drop_bit 8 u), ucast u])"

definition byte_view :: "endianness \<Rightarrow> unit16 list \<Rightarrow> byte list" where
  "byte_view en buf = concat (map (unit_bytes en) buf)"

text \<open>Sizes of UTF-16 buffers are in bytes: twice the number of units.\<close>

partial_function (option) instr_utf16_seek ::
  "unit16 list \<Rightarrow> nat \<Rightarrow> int \<Rightarrow> nat \<Rightarrow> nat \<Rightarrow> int \<Rightarrow> (fault + (nat \<times> nat \<times> int) flow) option" where
  "instr_utf16_seek buf needlesize start haystack stacksize found =
     (if found < start \<and> stacksize > needlesize then
        (case UTF16_ADVANCE buf haystack stacksize of
           Inl e \<Rightarrow> Some (Inl e)
         | Inr (haystack', stacksize', codepoint) \<Rightarrow>
             if codepoint = -1 then Some (Inr (Returned (-1)))
             else instr_utf16_seek buf needlesize start haystack' stacksize' (found + 1))
      else Some (Inr (Reached (haystack, stacksize, found))))"

definition instr_utf16_probe ::
  "endianness \<Rightarrow> unit16 list \<Rightarrow> unit16 list \<Rightarrow> bmh_skips \<Rightarrow> nat \<Rightarrow> nat \<Rightarrow> int \<Rightarrow> fault + nat flow" where
  "instr_utf16_probe en buf needle skips haystack stacksize found =
     (let needlesize = 2 * length needle in
      case memcmp_eq buf haystack needle of
        Inl e \<Rightarrow> Inl e
      | Inr eq \<Rightarrow>
          if eq then Inr (Returned found)
          else (case peek (byte_view en buf) (2 * haystack + (needlesize - 1)) of
                  Inl e \<Rightarrow> Inl e
                | Inr c \<Rightarrow>
                    if stacksize - skips c < needlesize then Inr (Returned 0)
                    else Inr (Reached (haystack + skips c div 2))))"

partial_function (option) instr_utf16_horspool ::
  "endianness \<Rightarrow> unit16 list \<Rightarrow> unit16 list \<Rightarrow> bmh_skips \<Rightarrow> nat \<Rightarrow> nat \<Rightarrow> nat \<Rightarrow> int
     \<Rightarrow> (fault + int) option" where
  "instr_utf16_horspool en buf needle skips haystack stacksize next found =
     (if stacksize \<ge> 2 * length needle then
        (case (if haystack \<ge> next
               then instr_utf16_probe en buf needle skips haystack stacksize found
               else Inr (Reached next)) of
           Inl e \<Rightarrow> Some (Inl e)
         | Inr (Returned r) \<Rightarrow> Some (Inr r)
         | Inr (Reached next') \<Rightarrow>
             (case UTF16_ADVANCE buf haystack stacksize of
                Inl e \<Rightarrow> Some (Inl e)
              | Inr (haystack', stacksize', codepoint) \<Rightarrow>
                  if codepoint = -1 then Some (Inr (-1))
                  else instr_utf16_horspool en buf needle skips haystack' stacksize' next'
                         (found + 1)))
      else Some (Inr 0))"

partial_function (option) instr_utf16_linear ::
  "unit16 list \<Rightarrow> unit16 \<Rightarrow> nat \<Rightarrow> nat \<Rightarrow> int \<Rightarrow> (fault + int) option" where
  "instr_utf16_linear buf first haystack stacksize found =
     (if stacksize > 0 then
        (case peek buf haystack of
           Inl e \<Rightarrow> Some (Inl e)
         | Inr c \<Rightarrow>
             if c = first then Some (Inr found)
             else (case UTF16_ADVANCE buf haystack stacksize of
                     Inl e \<Rightarrow> Some (Inl e)
                   | Inr (haystack', stacksize', codepoint) \<Rightarrow>
                       if codepoint = -1 then Some (Inr (-1))
                       else instr_utf16_linear buf first haystack' stacksize' (found + 1)))
      else Some (Inr 0))"

definition instr_utf16 ::
  "endianness \<Rightarrow> unit16 list \<Rightarrow> unit16 list \<Rightarrow> int \<Rightarrow> (fault + int) option" where
  "instr_utf16 en buf needle start =
     (let needlesize = 2 * length needle in
      if needlesize > 2 * length buf then Some (Inr 0)
      else
        (case instr_utf16_seek buf needlesize start 0 (2 * length buf) 1 of
           None \<Rightarrow> None
         | Some (Inl e) \<Rightarrow> Some (Inl e)
         | Some (Inr (Returned r)) \<Rightarrow> Some (Inr r)
         | Some (Inr (Reached (haystack, stacksize, found))) \<Rightarrow>
             if found < start then Some (Inr 0)
             else if needlesize \<le> 0 then Some (Inr found)
             else if needlesize > 2 then
               instr_utf16_horspool en buf needle (fbmh_setup (byte_view en needle) 1)
                 haystack stacksize haystack found
             else instr_utf16_linear buf (needle ! 0) haystack stacksize found))"

section \<open>Backward text engines\<close>

text \<open>
  The first loop of \<open>rinstr_utf8\<close>: walk forward to position \<open>start\<close>, or to
  the last cursor at which the needle still fits.
\<close>

partial_function (option) rinstr_utf8_seek ::
  "byte list \<Rightarrow> nat \<Rightarrow> int \<Rightarrow> nat \<Rightarrow> nat \<Rightarrow> int \<Rightarrow> (fault + (nat \<times> nat \<times> int) flow) option" where
  "rinstr_utf8_seek buf needlesize start haystack stacksize found =
     (if found < start \<and> stacksize > needlesize then
        (case UTF8_ADVANCE buf haystack stacksize of
           Inl e \<Rightarrow> Some (Inl e)
         | Inr (haystack', stacksize', codepoint) \<Rightarrow>
             if codepoint = -1 then Some (Inr (Returned (-1)))
             else if stacksize' < needlesize then Some (Inr (Reached (haystack, stacksize, found)))
             else rinstr_utf8_seek buf needlesize start haystack' stacksize' (found + 1))
      else Some (Inr (Reached (haystack, stacksize, found))))"

text \<open>The block under \<open>if (haystack<=next)\<close>.\<close>

definition rinstr_utf8_probe ::
  "byte list \<Rightarrow> byte list \<Rightarrow> bmh_skips \<Rightarrow> nat \<Rightarrow> nat \<Rightarrow> int \<Rightarrow> fault + nat flow" where
  "rinstr_utf8_probe buf needle skips haystack stacksize found =
     (case memcmp_eq buf haystack needle of
        Inl e \<Rightarrow> Inl e
      | Inr eq \<Rightarrow>
          if eq then Inr (Returned found)
          else (case peek buf haystack of
                  Inl e \<Rightarrow> Inl e
                | Inr c \<Rightarrow>
                    if skips c > stacksize then Inr (Returned 0)
                    else Inr (Reached (haystack - skips c))))"

text \<open>
  The two \<open>for (;;)\<close> loops of \<open>rinstr_utf8\<close>. Neither looks at
  \<open>codepoint\<close> after \<open>UTF8_RETREAT\<close>.
\<close>

partial_function (option) rinstr_utf8_horspool ::
  "byte list \<Rightarrow> byte list \<Rightarrow> bmh_skips \<Rightarrow> nat \<Rightarrow> nat \<Rightarrow> nat \<Rightarrow> int \<Rightarrow> (fault + int) option" where
  "rinstr_utf8_horspool buf needle skips haystack stacksize next found =
     (case (if haystack \<le> next
            then rinstr_utf8_probe buf needle skips haystack stacksize found
            else Inr (Reached next)) of
        Inl e \<Rightarrow> Some (Inl e)
      | Inr (Returned r) \<Rightarrow> Some (Inr r)
      | Inr (Reached next') \<Rightarrow>
          if stacksize \<le> 0 then Some (Inr 0)
          else (case UTF8_RETREAT buf haystack stacksize of
                  Inl e \<Rightarrow> Some (Inl e)
                | Inr (haystack', stacksize', codepoint) \<Rightarrow>
                    rinstr_utf8_horspool buf needle skips haystack' stacksize' next' (found - 1)))"

partial_function (option) rinstr_utf8_linear ::
  "byte list \<Rightarrow> byte \<Rightarrow> nat \<Rightarrow> nat \<Rightarrow> int \<Rightarrow> (fault + int) option" where
  "rinstr_utf8_linear buf first haystack stacksize found =
     (case peek buf haystack of
        Inl e \<Rightarrow> Some (Inl e)
      | Inr c \<Rightarrow>
          if c = first then Some (Inr found)
          else if stacksize \<le> 0 then Some (Inr 0)
          else (case UTF8_RETREAT buf haystack stacksize of
                  Inl e \<Rightarrow> Some (Inl e)
                | Inr (haystack', stacksize', codepoint) \<Rightarrow>
                    rinstr_utf8_linear buf first haystack' stacksize' (found - 1)))"

definition rinstr_utf8 :: "byte list \<Rightarrow> byte list \<Rightarrow> int \<Rightarrow> (fault + int) option" where
  "rinstr_utf8 buf needle start =
     (let needlesize = length needle in
      if start \<le> 0 then Some (Inr 0)
      else if needlesize > length buf then Some (Inr 0)
      else
        (case rinstr_utf8_seek buf needlesize start 0 (length buf) 1 of
           None \<Rightarrow> None
         | Some (Inl e) \<Rightarrow> Some (Inl e)
         | Some (Inr (Returned r)) \<Rightarrow> Some (Inr r)
         | Some (Inr (Reached (haystack, stacksize_fwd, found))) \<Rightarrow>
             if needlesize \<le> 0 then Some (Inr found)
             else
               let stacksize = haystack in
               if needlesize > 1 then
                 rinstr_utf8_horspool buf needle (rbmh_setup needle 0) haystack stacksize haystack found
               else rinstr_utf8_linear buf (needle ! 0) haystack stacksize found))"

partial_function (option) rinstr_utf16_seek ::
  "unit16 list \<Rightarrow> nat \<Rightarrow> int \<Rightarrow> nat \<Rightarrow> nat \<Rightarrow> int \<Rightarrow> (fault + (nat \<times> nat \<times> int) flow) option" where
  "rinstr_utf16_seek buf needlesize start haystack stacksize found =
     (if found < start \<and> stacksize > needlesize then
        (case UTF16_ADVANCE buf haystack stacksize of
           Inl e \<Rightarrow> Some (Inl e)
         | Inr (haystack', stacksize', codepoint) \<Rightarrow>
             if codepoint = -1 then Some (Inr (Returned (-1)))
             else if stacksize' < needlesize then Some (Inr (Reached (haystack, stacksize, found)))
             else rinstr_utf16_seek buf needlesize start haystack' stacksize' (found + 1))
      else Some (Inr (Reached (haystack, stacksize, found))))"

definition rinstr_utf16_probe ::
  "endianness \<Rightarrow> unit16 list \<Rightarrow> unit16 list \<Rightarrow> bmh_skips \<Rightarrow> nat \<Rightarrow> nat \<Rightarrow> int \<Rightarrow> fault + nat flow" where
  "rinstr_utf16_probe en buf needle skips haystack stacksize found =
     (case memcmp_eq buf haystack needle of
        Inl e \<Rightarrow> Inl e
      | Inr eq \<Rightarrow>
          if eq then Inr (Returned found)
          else (case peek (byte_view en buf) (2 * haystack) of
                  Inl e \<Rightarrow> Inl e
                | Inr c \<Rightarrow>
                    if skips c > stacksize then Inr (Returned 0)
                    else Inr (Reached (haystack - skips c div 2))))"

partial_function (option) rinstr_utf16_horspool ::
  "endianness \<Rightarrow> unit16 list \<Rightarrow> unit16 list \<Rightarrow> bmh_skips \<Rightarrow> nat \<Rightarrow> nat \<Rightarrow> nat \<Rightarrow> int
     \<Rightarrow> (fault + int) option" where
  "rinstr_utf16_horspool en buf needle skips haystack stacksize next found =
     (case (if haystack \<le> next
            then rinstr_utf16_probe en buf needle skips haystack stacksize found
            else Inr (Reached next)) of
        Inl e \<Rightarrow> Some (Inl e)
      | Inr (Returned r) \<Rightarrow> Some (Inr r)
      | Inr (Reached next') \<Rightarrow>
          if stacksize \<le> 0 then Some (Inr 0)
          else (case UTF16_RETREAT buf haystack stacksize of
                  Inl e \<Rightarrow> Some (Inl e)
                | Inr (haystack', stacksize', codepoint) \<Rightarrow>
                    rinstr_utf16_horspool en buf needle skips haystack' stacksize' next'
                      (found - 1)))"

partial_function (option) rinstr_utf16_linear ::
  "unit16 list \<Rightarrow> unit16 \<Rightarrow> nat \<Rightarrow> nat \<Rightarrow> int \<Rightarrow> (fault + int) option" where
  "rinstr_utf16_linear buf first haystack stacksize found =
     (case peek buf haystack of
        Inl e \<Rightarrow> Some (Inl e)
      | Inr c \<Rightarrow>
          if c = first then Some (Inr found)
          else if stacksize \<le> 0 then Some (Inr 0)
          else (case UTF16_RETREAT buf haystack stacksize of
                  Inl e \<Rightarrow> Some (Inl e)
                | Inr (haystack', stacksize', codepoint) \<Rightarrow>
                    rinstr_utf16_linear buf first haystack' stacksize' (found - 1)))"

definition rinstr_utf16 ::
  "endianness \<Rightarrow> unit16 list \<Rightarrow> unit16 list \<Rightarrow> int \<Rightarrow> (fault + int) option" where
  "rinstr_utf16 en buf needle start =
     (let needlesize = 2 * length needle in
      if start \<le> 0 then Some (Inr 0)
      else if needlesize > 2 * length buf then Some (Inr 0)
      else
        (case rinstr_utf16_seek buf needlesize start 0 (2 * length buf) 1 of
           None \<Rightarrow> None
         | Some (Inl e) \<Rightarrow> Some (Inl e)
         | Some (Inr (Returned r)) \<Rightarrow> Some (Inr r)
         | Some (Inr (Reached (haystack, stacksize_fwd, found))) \<Rightarrow>
             if needlesize \<le> 0 then Some (Inr found)
             else
               let stacksize = haystack * 2 in
               if needlesize > 2 then
                 rinstr_utf16_horspool en buf needle (rbmh_setup (byte_view en needle) 1)
                   haystack stacksize haystack found
               else rinstr_utf16_linear buf (needle ! 0) haystack stacksize found))"

declare instr_blob_horspool.simps [code] instr_blob_linear.simps [code]
declare rinstr_blob_horspool.simps [code] rinstr_blob_linear.simps [code]
declare instr_utf8_seek.simps [code] instr_utf8_horspool.simps [code] instr_utf8_linear.simps [code]
declare instr_utf16_seek.simps [code] instr_utf16_horspool.simps [code] instr_utf16_linear.simps [code]
declare rinstr_utf8_seek.simps [code] rinstr_utf8_horspool.simps [code] rinstr_utf8_linear.simps [code]
declare rinstr_utf16_seek.simps [code] rinstr_utf16_horspool.simps [code] rinstr_utf16_linear.simps [code]

section \<open>Argument adapter\<close>

text \<open>
  An \<open>sqlite3_value\<close> is seen through the accessors of the SQLite API only, so it
  is embedded as what they answer: \<open>value_blob\<close>, \<open>value_text\<close> and
  \<open>value_text16\<close> are the buffers behind the pointers that
  \<open>sqlite3_value_blob\<close>, \<open>sqlite3_value_text\<close> and \<open>sqlite3_value_text16\<close>
  return (\<open>None\<close> for a NULL pointer), of the byte counts that
  \<open>sqlite3_value_bytes\<close> and \<open>sqlite3_value_bytes16\<close> report for them;
  \<open>value_bytes\<close> is the count reported beside a NULL blob pointer.
\<close>

datatype sqlite_type = SQLITE_INTEGER | SQLITE_FLOAT | SQLITE_TEXT | SQLITE_BLOB | SQLITE_NULL

record sqlite3_value =
  value_type :: sqlite_type
  value_blob :: "byte list option"
  value_bytes :: nat
  value_text :: "byte list option"
  value_text16 :: "unit16 list option"
  value_int64 :: int

text \<open>
  What a call leaves in the \<open>sqlite3_context\<close>: nothing (SQL NULL), an integer,
  an error message, or the out-of-memory error.
\<close>

datatype sql_result = NoResult | ResultInt64 int | ResultError string | ResultErrorNomem

definition confused :: string where
  "confused = ''SQLite is confused''"

definition malformed_8 :: string where
  "malformed_8 = ''malformed UTF-8 text''"

definition malformed_16 :: string where
  "malformed_16 = ''malformed UTF-16 text''"

text \<open>The tail of both adapters: \<open>if (result<0) ... else ...\<close>.\<close>

definition report :: "string \<Rightarrow> (fault + int) option \<Rightarrow> (fault + sql_result) option" where
  "report malformed r =
     (case r of
        None \<Rightarrow> None
      | Some (Inl e) \<Rightarrow> Some (Inl e)
      | Some (Inr result) \<Rightarrow>
          Some (Inr (if result < 0 then ResultError malformed else ResultInt64 result)))"

definition blob_buffer :: "sqlite3_value \<Rightarrow> byte list" where
  "blob_buffer v = (case value_blob v of None \<Rightarrow> [] | Some b \<Rightarrow> b)"

text \<open>
  \<open>malformed\<close> is the user data of the registration (\<open>malformed_8\<close> for the
  UTF-8 one, \<open>malformed_16\<close> for the UTF-16 one); \<open>args\<close> are the \<open>argc\<close>
  arguments.
\<close>

definition instr_func ::
  "string \<Rightarrow> endianness \<Rightarrow> sqlite3_value list \<Rightarrow> (fault + sql_result) option" where
  "instr_func malformed en args =
     (let argc = length args in
      if argc < 2 then Some (Inr (ResultError confused))
      else if value_type (args ! 0) = SQLITE_NULL then Some (Inr NoResult)
      else if value_type (args ! 1) = SQLITE_NULL then Some (Inr NoResult)
      else if argc \<ge> 3 \<and> value_type (args ! 2) = SQLITE_NULL then Some (Inr NoResult)
      else
        let start = (if argc \<ge> 3 then value_int64 (args ! 2) else 1) in
        if value_type (args ! 0) = SQLITE_BLOB \<and> value_type (args ! 1) = SQLITE_BLOB then
          if value_blob (args ! 0) = None \<and> value_bytes (args ! 0) > 0 then Some (Inr ResultErrorNomem)
          else if value_blob (args ! 1) = None \<and> value_bytes (args ! 1) > 0
          then Some (Inr ResultErrorNomem)
          else report malformed (instr_blob (blob_buffer (args ! 0)) (blob_buffer (args ! 1)) start)
        else if malformed = malformed_8 then
          (case value_text (args ! 0) of
             None \<Rightarrow> Some (Inr ResultErrorNomem)
           | Some haystack \<Rightarrow>
               (case value_text (args ! 1) of
                  None \<Rightarrow> Some (Inr ResultErrorNomem)
                | Some needle \<Rightarrow> report malformed (instr_utf8 haystack needle start)))
        else if malformed = malformed_16 then
          (case value_text16 (args ! 0) of
             None \<Rightarrow> Some (Inr ResultErrorNomem)
           | Some haystack \<Rightarrow>
               (case value_text16 (args ! 1) of
                  None \<Rightarrow> Some (Inr ResultErrorNomem)
                | Some needle \<Rightarrow> report malformed (instr_utf16 en haystack needle start)))
        else Some (Inr (ResultError confused)))"

definition rinstr_func ::
  "string \<Rightarrow> endianness \<Rightarrow> sqlite3_value list \<Rightarrow> (fault + sql_result) option" where
  "rinstr_func malformed en args =
     (let argc = length args in
      if argc < 2 then Some (Inr (ResultError confused))
      else if value_type (args ! 0) = SQLITE_NULL then Some (Inr NoResult)
      else if value_type (args ! 1) = SQLITE_NULL then Some (Inr NoResult)
      else if argc \<ge> 3 \<and> value_type (args ! 2) = SQLITE_NULL then Some (Inr NoResult)
      else
        let start = (if argc \<ge> 3 then value_int64 (args ! 2) else INT64_MAX) in
        if value_type (args ! 0) = SQLITE_BLOB \<and> value_type (args ! 1) = SQLITE_BLOB then
          if value_blob (args ! 0) = None \<and> value_bytes (args ! 0) > 0 then Some (Inr ResultErrorNomem)
          else if value_blob (args ! 1) = None \<and> value_bytes (args ! 1) > 0
          then Some (Inr ResultErrorNomem)
          else report malformed (rinstr_blob (blob_buffer (args ! 0)) (blob_buffer (args ! 1)) start)
        else if malformed = malformed_8 then
          (case value_text (args ! 0) of
             None \<Rightarrow> Some (Inr ResultErrorNomem)
           | Some haystack \<Rightarrow>
               (case value_text (args ! 1) of
                  None \<Rightarrow> Some (Inr ResultErrorNomem)
                | Some needle \<Rightarrow> report malformed (rinstr_utf8 haystack needle start)))
        else if malformed = malformed_16 then
          (case value_text16 (args ! 0) of
             None \<Rightarrow> Some (Inr ResultErrorNomem)
           | Some haystack \<Rightarrow>
               (case value_text16 (args ! 1) of
                  None \<Rightarrow> Some (Inr ResultErrorNomem)
                | Some needle \<Rightarrow> report malformed (rinstr_utf16 en haystack needle start)))
        else Some (Inr (ResultError confused)))"

section \<open>Reference notions\<close>

text \<open>The needle occurs in the haystack at offset \<open>p\<close> (counted from 0).\<close>

definition occurs_at :: "'a list \<Rightarrow> 'a list \<Rightarrow> nat \<Rightarrow> bool" where
  "occurs_at hay needle p \<longleftrightarrow>
     p + length needle \<le> length hay \<and> take (length needle) (drop p hay) = needle"

text \<open>
  The naive reference search: an inner loop that compares the needle with the
  units at the front of the haystack, and an outer loop over the suffixes of the
  haystack that returns the position of the first match, or 0.
\<close>

fun match_here :: "'a list \<Rightarrow> 'a list \<Rightarrow> bool" where
  "match_here hay [] = True"
| "match_here [] (y # ys) = False"
| "match_here (x # xs) (y # ys) = (x = y \<and> match_here xs ys)"

fun naive_search :: "'a list \<Rightarrow> 'a list \<Rightarrow> int \<Rightarrow> int" where
  "naive_search [] needle pos = (if match_here [] needle then pos else 0)"
| "naive_search (x # xs) needle pos =
     (if match_here (x # xs) needle then pos else naive_search xs needle (pos + 1))"

text \<open>
  Re-decoding from a cursor: \<open>utf8_skip buf n p = Some q\<close> when \<open>n\<close> codepoints
  decode one after the other from offset \<open>p\<close> and the last of them ends at
  offset \<open>q\<close>; \<open>None\<close> when one of them does not decode.
\<close>

fun utf8_skip :: "byte list \<Rightarrow> nat \<Rightarrow> nat \<Rightarrow> nat option" where
  "utf8_skip buf 0 p = Some p"
| "utf8_skip buf (Suc n) p =
     (case UTF8_ADVANCE buf p (length buf - p) of
        Inl e \<Rightarrow> None
      | Inr (p', s', cp) \<Rightarrow> if cp = -1 then None else utf8_skip buf n p')"

fun utf16_skip :: "unit16 list \<Rightarrow> nat \<Rightarrow> nat \<Rightarrow> nat option" where
  "utf16_skip buf 0 p = Some p"
| "utf16_skip buf (Suc n) p =
     (case UTF16_ADVANCE buf p (2 * (length buf - p)) of
        Inl e \<Rightarrow> None
      | Inr (p', s', cp) \<Rightarrow> if cp = -1 then None else utf16_skip buf n p')"

text \<open>
  What a forward cursor step may do from cursor \<open>p\<close> with \<open>s\<close> bytes left:
  answer \<open>-1\<close> and leave cursor and size alone, or decode a codepoint and
  move over one to four bytes (one or two units for UTF-16) of those left.
\<close>

definition adv_ok :: "nat \<Rightarrow> nat \<Rightarrow> fault + (nat \<times> nat \<times> int) \<Rightarrow> bool" where
  "adv_ok p s r \<longleftrightarrow>
     (\<exists>p' s' cp. r = Inr (p', s', cp)
        \<and> (cp = -1 \<and> p' = p \<and> s' = s
            \<or> 0 \<le> cp \<and> (\<exists>k. 1 \<le> k \<and> k \<le> 4 \<and> k \<le> s \<and> p' = p + k \<and> s' = s - k)))"

definition adv16_ok :: "nat \<Rightarrow> nat \<Rightarrow> fault + (nat \<times> nat \<times> int) \<Rightarrow> bool" where
  "adv16_ok p s r \<longleftrightarrow>
     (\<exists>p' s' cp. r = Inr (p', s', cp)
        \<and> (cp = -1 \<and> p' = p \<and> s' = s
            \<or> 0 \<le> cp \<and> (\<exists>k. 1 \<le> k \<and> k \<le> 2 \<and> 2 * k \<le> s \<and> p' = p + k \<and> s' = s - 2 * k)))"

text \<open>Two argument values for worked examples: the BLOB \<open>X'61'\<close> and the text \<open>'a'\<close>,
  with what the accessors answer for them.\<close>

definition example_blob :: sqlite3_value where
  "example_blob =
     \<lparr>value_type = SQLITE_BLOB, value_blob = Some [0x61], value_bytes = 1,
      value_text = Some [0x61], value_text16 = Some [0x61], value_int64 = 0\<rparr>"

definition example_text :: sqlite3_value where
  "example_text =
     \<lparr>value_type = SQLITE_TEXT, value_blob = Some [0x61], value_bytes = 1,
      value_text = Some [0x61], value_text16 = Some [0x61], value_int64 = 0\<rparr>"

section \<open>Loops that do not return\<close>

text \<open>
  When the retreat macro leaves cursor and size as they are, the backward loops
  have nothing left that changes but \<open>found\<close>, which no exit test reads.
\<close>

lemma rinstr_utf8_linear_stuck:
  assumes r: "UTF8_RETREAT buf h s = Inr (h, s, cp)"
    and p: "peek buf h = Inr c" "c \<noteq> first" and s: "s > 0"
  shows "rinstr_utf8_linear buf first h s found = None"
proof -
  have main: "\<not> (b = buf \<and> f' = first \<and> h' = h \<and> s' = s)"
    if "rinstr_utf8_linear b f' h' s' fnd = Some y" for b f' h' s' fnd y
    using that
  proof (rule rinstr_utf8_linear.raw_induct[rotated,
          where P = "\<lambda>b f' h' s' fnd y. \<not> (b = buf \<and> f' = first \<and> h' = h \<and> s' = s)"], goal_cases)
    case (1 f b f' h' s' fnd y)
    show ?case
    proof
      assume a: "b = buf \<and> f' = first \<and> h' = h \<and> s' = s"
      from 1(2) a r p s have "f b f' h' s' (fnd - 1) = Some y"
        by simp
      from 1(1)[OF this] a show False by simp
    qed
  qed
  have "\<forall>y. rinstr_utf8_linear buf first h s found \<noteq> Some y"
  proof (intro allI notI)
    fix y assume "rinstr_utf8_linear buf first h s found = Some y"
    from main[OF this] show False by simp
  qed
  then show ?thesis by (simp only: not_Some_eq)
qed

lemma rinstr_utf8_horspool_stuck:
  assumes r: "UTF8_RETREAT buf h s = Inr (h, s, cp)"
    and n: "next < h" and s: "s > 0"
  shows "rinstr_utf8_horspool buf needle skips h s next found = None"
proof -
  have main: "\<not> (b = buf \<and> h' = h \<and> s' = s \<and> n' = next)"
    if "rinstr_utf8_horspool b nd sk h' s' n' fnd = Some y" for b nd sk h' s' n' fnd y
    using that
  proof (rule rinstr_utf8_horspool.raw_induct[rotated,
          where P = "\<lambda>b nd sk h' s' n' fnd y. \<not> (b = buf \<and> h' = h \<and> s' = s \<and> n' = next)"],
         goal_cases)
    case (1 f b nd sk h' s' n' fnd y)
    show ?case
    proof
      assume a: "b = buf \<and> h' = h \<and> s' = s \<and> n' = next"
      from 1(2) a r n s have "f b nd sk h' s' n' (fnd - 1) = Some y"
        by simp
      from 1(1)[OF this] a show False by simp
    qed
  qed
  have "\<forall>y. rinstr_utf8_horspool buf needle skips h s next found \<noteq> Some y"
  proof (intro allI notI)
    fix y assume "rinstr_utf8_horspool buf needle skips h s next found = Some y"
    from main[OF this] show False by simp
  qed
  then show ?thesis by (simp only: not_Some_eq)
qed

lemma rinstr_utf16_linear_stuck:
  assumes r: "UTF16_RETREAT buf h s = Inr (h, s, cp)"
    and p: "peek buf h = Inr c" "c \<noteq> first" and s: "s > 0"
  shows "rinstr_utf16_linear buf first h s found = None"
proof -
  have main: "\<not> (b = buf \<and> f' = first \<and> h' = h \<and> s' = s)"
    if "rinstr_utf16_linear b f' h' s' fnd = Some y" for b f' h' s' fnd y
    using that
  proof (rule rinstr_utf16_linear.raw_induct[rotated,
          where P = "\<lambda>b f' h' s' fnd y. \<not> (b = buf \<and> f' = first \<and> h' = h \<and> s' = s)"], goal_cases)
    case (1 f b f' h' s' fnd y)
    show ?case
    proof
      assume a: "b = buf \<and> f' = first \<and> h' = h \<and> s' = s"
      from 1(2) a r p s have "f b f' h' s' (fnd - 1) = Some y"
        by simp
      from 1(1)[OF this] a show False by simp
    qed
  qed
  have "\<forall>y. rinstr_utf16_linear buf first h s found \<noteq> Some y"
  proof (intro allI notI)
    fix y assume "rinstr_utf16_linear buf first h s found = Some y"
    from main[OF this] show False by simp
  qed
  then show ?thesis by (simp only: not_Some_eq)
qed

text \<open>How the backward engines hand over from the first loop to the second.\<close>

lemma rinstr_utf8_single:
  "0 < start \<Longrightarrow> length needle = 1 \<Longrightarrow> length needle \<le> length buf \<Longrightarrow>
   rinstr_utf8_seek buf (length needle) start 0 (length buf) 1 = Some (Inr (Reached (h, s, f))) \<Longrightarrow>
   rinstr_utf8 buf needle start = rinstr_utf8_linear buf (needle ! 0) h h f"
  by (cases buf) (simp_all add: rinstr_utf8_def)

lemma rinstr_utf8_multi:
  "0 < start \<Longrightarrow> 1 < length needle \<Longrightarrow> length needle \<le> length buf \<Longrightarrow>
   rinstr_utf8_seek buf (length needle) start 0 (length buf) 1 = Some (Inr (Reached (h, s, f))) \<Longrightarrow>
   rinstr_utf8 buf needle start = rinstr_utf8_horspool buf needle (rbmh_setup needle 0) h h h f"
  by (cases buf; cases needle) (simp_all add: rinstr_utf8_def)

lemma rinstr_utf16_single:
  "0 < start \<Longrightarrow> length needle = 1 \<Longrightarrow> length needle \<le> length buf \<Longrightarrow>
   rinstr_utf16_seek buf (2 * length needle) start 0 (2 * length buf) 1
     = Some (Inr (Reached (h, s, f))) \<Longrightarrow>
   rinstr_utf16 en buf needle start = rinstr_utf16_linear buf (needle ! 0) h (h * 2) f"
  by (cases buf) (simp_all add: rinstr_utf16_def)

section \<open>The concrete scenario\<close>

text \<open>
  C7 (as amended). Raw haystack \<open>"abcabcabc"\<close>, needle \<open>"bca"\<close>: the needle
  occurs at the 1-based positions 2 and 5 only. The forward search with the
  default start 1 returns 2 and the backward search with the default start
  (the largest 64-bit integer) returns 5.
\<close>

theorem abcabcabc_positions:
  "instr_blob [0x61,0x62,0x63,0x61,0x62,0x63,0x61,0x62,0x63] [0x62,0x63,0x61] 1 = Some (Inr 2)
   \<and> rinstr_blob [0x61,0x62,0x63,0x61,0x62,0x63,0x61,0x62,0x63] [0x62,0x63,0x61] INT64_MAX
       = Some (Inr 5)"
  by code_simp

text \<open>C7 as stated (backward search returns 8) does not hold.\<close>

theorem abcabcabc_backward_not_8:
  "\<not> (instr_blob [0x61,0x62,0x63,0x61,0x62,0x63,0x61,0x62,0x63] [0x62,0x63,0x61] 1 = Some (Inr 2)
      \<and> rinstr_blob [0x61,0x62,0x63,0x61,0x62,0x63,0x61,0x62,0x63] [0x62,0x63,0x61] INT64_MAX
          = Some (Inr 8))"
  by code_simp

section \<open>The backward cursors\<close>

text \<open>
  C5. \<open>UTF8_ADVANCE\<close> decodes the three bytes \<open>E2 82 AC\<close> as U+20AC and moves
  three bytes forward; \<open>UTF8_RETREAT\<close> at the end of the same three bytes
  answers \<open>-1\<close> and does not move. The same holds for the four bytes
  \<open>F0 9F 98 80\<close> of U+1F600.
\<close>

theorem UTF8_RETREAT_rejects_long_forms:
  "UTF8_ADVANCE [0xE2,0x82,0xAC] 0 3 = Inr (3, 0, 0x20AC)
   \<and> UTF8_RETREAT [0xE2,0x82,0xAC] 3 3 = Inr (3, 3, -1)
   \<and> UTF8_ADVANCE [0xF0,0x9F,0x98,0x80] 0 4 = Inr (4, 0, 0x1F600)
   \<and> UTF8_RETREAT [0xF0,0x9F,0x98,0x80] 4 4 = Inr (4, 4, -1)"
  by code_simp

text \<open>
  C2. The UTF-16 haystack \<open>b, U+1F600, a, c, z\<close> (six units, the second
  codepoint a surrogate pair) is well formed: five codepoints decode from its
  start and end at its end. The backward search for \<open>z\<close> from position 3
  returns 2. Decoding one codepoint from the start lands at unit 1, where the
  surrogate pair begins and the needle does not occur.
\<close>

theorem rinstr_utf16_position_off_boundary:
  "utf16_skip [0x62, 0xD83D, 0xDE00, 0x61, 0x63, 0x7A] 5 0 = Some 6
   \<and> rinstr_utf16 en [0x62, 0xD83D, 0xDE00, 0x61, 0x63, 0x7A] [0x7A] 3 = Some (Inr 2)
   \<and> utf16_skip [0x62, 0xD83D, 0xDE00, 0x61, 0x63, 0x7A] (2 - 1) 0 = Some 1
   \<and> memcmp_eq [0x62, 0xD83D, 0xDE00, 0x61, 0x63, 0x7A :: unit16] 1 [0x7A] = Inr False"
proof -
  let ?b = "[0x62, 0xD83D, 0xDE00, 0x61, 0x63, 0x7A] :: unit16 list"
  have "rinstr_utf16 en ?b [0x7A] 3 = rinstr_utf16_linear ?b ([0x7A] ! 0) 3 (3 * 2) 3"
    by (rule rinstr_utf16_single) code_simp+
  also have "\<dots> = Some (Inr 2)"
    by code_simp
  finally have "rinstr_utf16 en ?b [0x7A] 3 = Some (Inr 2)" .
  moreover have "utf16_skip ?b 5 0 = Some 6" by code_simp
  moreover have "utf16_skip ?b (2 - 1) 0 = Some 1" by code_simp
  moreover have "memcmp_eq ?b 1 [0x7A] = Inr False" by code_simp
  ultimately show ?thesis by (intro conjI)
qed

text \<open>
  C3. Two calls that do not return. The UTF-8 haystack \<open>U+20AC, a\<close> with the
  needle \<open>b\<close> and the default start: \<open>UTF8_RETREAT\<close> does not step back over the
  three bytes of U+20AC. The UTF-16 haystack \<open>b, U+1F600, a, U+1F600\<close> with the
  needle \<open>z\<close> and start 3: \<open>UTF16_RETREAT\<close> moves the cursor two units forward at
  the first surrogate pair and then stands after the high surrogate of the
  second. Both haystacks are well formed.
\<close>

theorem backward_text_search_diverges:
  "utf8_skip [0xE2,0x82,0xAC,0x61] 2 0 = Some 4
   \<and> rinstr_utf8 [0xE2,0x82,0xAC,0x61] [0x62] INT64_MAX = None
   \<and> utf16_skip [0x62, 0xD83D, 0xDE00, 0x61, 0xD83D, 0xDE00] 4 0 = Some 6
   \<and> rinstr_utf16 en [0x62, 0xD83D, 0xDE00, 0x61, 0xD83D, 0xDE00] [0x7A] 3 = None"
proof -
  have "rinstr_utf8 [0xE2,0x82,0xAC,0x61] [0x62] INT64_MAX
          = rinstr_utf8_linear [0xE2,0x82,0xAC,0x61] ([0x62] ! 0) 3 3 2"
    by (rule rinstr_utf8_single) code_simp+
  also have "\<dots> = None"
    by (rule rinstr_utf8_linear_stuck[where cp = "-1" and c = "0x61"]) code_simp+
  finally have a: "rinstr_utf8 [0xE2,0x82,0xAC,0x61] [0x62] INT64_MAX = None" .
  let ?b = "[0x62, 0xD83D, 0xDE00, 0x61, 0xD83D, 0xDE00] :: unit16 list"
  have "rinstr_utf16 en ?b [0x7A] 3 = rinstr_utf16_linear ?b ([0x7A] ! 0) 3 (3 * 2) 3"
    by (rule rinstr_utf16_single) code_simp+
  also have "\<dots> = rinstr_utf16_linear ?b 0x7A 5 2 2"
    by (subst rinstr_utf16_linear.simps)
       (simp add: peek_def UTF16_RETREAT_def load16_back_def load16_def)
  also have "\<dots> = None"
    by (rule rinstr_utf16_linear_stuck[where cp = "-1" and c = "0xDE00"]) code_simp+
  finally have b: "rinstr_utf16 en ?b [0x7A] 3 = None" .
  have c: "utf8_skip [0xE2,0x82,0xAC,0x61] 2 0 = Some 4" by code_simp
  have d: "utf16_skip ?b 4 0 = Some 6" by code_simp
  from a b c d show ?thesis by (intro conjI)
qed

text \<open>
  C4. The UTF-8 haystack \<open>U+20AC, a, b\<close> with the needle \<open>xy\<close> and the default
  start: the backward walk starts at offset 3, \<open>UTF8_RETREAT\<close> there answers
  \<open>-1\<close>, and the call does not return \<open>-1\<close>: it does not return.
\<close>

theorem rinstr_utf8_retreat_failure_unreported:
  "UTF8_RETREAT [0xE2,0x82,0xAC,0x61,0x62] 3 3 = Inr (3, 3, -1)
   \<and> rinstr_utf8 [0xE2,0x82,0xAC,0x61,0x62] [0x78,0x79] INT64_MAX \<noteq> Some (Inr (-1))
   \<and> rinstr_utf8 [0xE2,0x82,0xAC,0x61,0x62] [0x78,0x79] INT64_MAX = None"
proof -
  let ?b = "[0xE2,0x82,0xAC,0x61,0x62] :: byte list"
  let ?n = "[0x78,0x79] :: byte list"
  have r: "UTF8_RETREAT ?b 3 3 = Inr (3, 3, -1)" by code_simp
  have "rinstr_utf8 ?b ?n INT64_MAX = rinstr_utf8_horspool ?b ?n (rbmh_setup ?n 0) 3 3 3 2"
    by (rule rinstr_utf8_multi) code_simp+
  also have "\<dots> = rinstr_utf8_horspool ?b ?n (rbmh_setup ?n 0) 3 3 1 1"
    by (subst rinstr_utf8_horspool.simps)
       (simp add: rinstr_utf8_probe_def memcmp_eq_def peek_def rbmh_setup_def r)
  also have "\<dots> = None"
    by (rule rinstr_utf8_horspool_stuck[OF r]) simp_all
  finally have "rinstr_utf8 ?b ?n INT64_MAX = None" .
  with r show ?thesis by simp
qed

section \<open>Skip tables: bounds\<close>

lemma fbmh_fold_bounds:
  "k \<le> limit \<Longrightarrow> limit < m \<Longrightarrow>
   1 \<le> fold (\<lambda>ix sk. sk(needle ! ix := limit - ix)) [0..<k] (\<lambda>c. m) c
   \<and> fold (\<lambda>ix sk. sk(needle ! ix := limit - ix)) [0..<k] (\<lambda>c. m) c \<le> m"
  by (induction k) auto

lemma fbmh_fold_le:
  "k \<le> limit \<Longrightarrow> i < k \<Longrightarrow>
   fold (\<lambda>ix sk. sk(needle ! ix := limit - ix)) [0..<k] (\<lambda>c. m) (needle ! i) \<le> limit - i"
proof (induction k)
  case 0
  then show ?case by simp
next
  case (Suc k)
  then show ?case by (cases "i = k") auto
qed

lemma fbmh_setup_bounds:
  assumes "2 \<le> length needle"
  shows "1 \<le> fbmh_setup needle 0 c" and "fbmh_setup needle 0 c \<le> length needle"
  using fbmh_fold_bounds[of "length needle - 1" "length needle - 1" "length needle" needle c] assms
  by (simp_all add: fbmh_setup_def Let_def)

lemma fbmh_setup_le:
  assumes "i + 1 < length needle"
  shows "fbmh_setup needle 0 (needle ! i) \<le> length needle - 1 - i"
  using fbmh_fold_le[of "length needle - 1" "length needle - 1" i needle "length needle"] assms
  by (simp add: fbmh_setup_def Let_def)

lemma rbmh_foldr_bounds:
  "1 \<le> j \<Longrightarrow> limit < m \<Longrightarrow>
   1 \<le> foldr (\<lambda>ix sk. sk(needle ! ix := ix)) [j..<Suc limit] (\<lambda>c. m) c
   \<and> foldr (\<lambda>ix sk. sk(needle ! ix := ix)) [j..<Suc limit] (\<lambda>c. m) c \<le> m"
proof (induction "Suc limit - j" arbitrary: j)
  case 0
  then show ?case by (simp del: upt_Suc)
next
  case (Suc d)
  then have "j \<le> limit" by simp
  then have u: "[j..<Suc limit] = j # [Suc j..<Suc limit]"
    by (simp add: upt_conv_Cons)
  from Suc(1)[of "Suc j"] Suc(2-) show ?case
    by (auto simp add: u simp del: upt_Suc)
qed

lemma rbmh_foldr_le:
  "1 \<le> j \<Longrightarrow> j \<le> i \<Longrightarrow> i \<le> limit \<Longrightarrow>
   foldr (\<lambda>ix sk. sk(needle ! ix := ix)) [j..<Suc limit] (\<lambda>c. m) (needle ! i) \<le> i"
proof (induction "Suc limit - j" arbitrary: j)
  case 0
  then show ?case by (simp del: upt_Suc)
next
  case (Suc d)
  then have "j \<le> limit" by simp
  then have u: "[j..<Suc limit] = j # [Suc j..<Suc limit]"
    by (simp add: upt_conv_Cons)
  show ?case
  proof (cases "i = j")
    case True
    then show ?thesis by (simp add: u del: upt_Suc)
  next
    case False
    with Suc(1)[of "Suc j"] Suc(2-) show ?thesis
      by (auto simp add: u simp del: upt_Suc)
  qed
qed

lemma rbmh_setup_bounds:
  assumes "2 \<le> length needle"
  shows "1 \<le> rbmh_setup needle 0 c" and "rbmh_setup needle 0 c \<le> length needle"
  using rbmh_foldr_bounds[of 1 "length needle - 1" "length needle" needle c] assms
  by (simp_all add: rbmh_setup_def foldr_conv_fold Let_def)

lemma rbmh_setup_le:
  assumes "1 \<le> i" "i < length needle"
  shows "rbmh_setup needle 0 (needle ! i) \<le> i"
  using rbmh_foldr_le[of 1 i "length needle - 1" needle "length needle"] assms
  by (simp add: rbmh_setup_def foldr_conv_fold Let_def)

section \<open>Raw engines: correctness\<close>

lemma occurs_at_nth:
  "occurs_at hay needle p \<Longrightarrow> i < length needle \<Longrightarrow> hay ! (p + i) = needle ! i"
proof -
  assume a: "occurs_at hay needle p" and i: "i < length needle"
  from a have b: "p + length needle \<le> length hay"
    and e: "needle = take (length needle) (drop p hay)"
    by (simp_all add: occurs_at_def)
  from b i have "take (length needle) (drop p hay) ! i = hay ! (p + i)" by simp
  with e show ?thesis by simp
qed

lemma memcmp_eq_occurs:
  "h + length needle \<le> length buf \<Longrightarrow> memcmp_eq buf h needle = Inr (occurs_at buf needle h)"
  by (simp add: memcmp_eq_def occurs_at_def)

text \<open>Forward Horspool: no occurrence is skipped.\<close>

lemma fbmh_skip_safe:
  assumes m: "2 \<le> length needle"
    and hb: "h + length needle \<le> length buf"
    and occ: "occurs_at buf needle p" and hp: "h < p"
  shows "h + fbmh_setup needle 0 (buf ! (h + (length needle - 1))) \<le> p"
proof (rule ccontr)
  let ?m = "length needle"
  let ?c = "buf ! (h + (?m - 1))"
  assume "\<not> h + fbmh_setup needle 0 ?c \<le> p"
  then have lt: "p - h < fbmh_setup needle 0 ?c" using hp by simp
  have "fbmh_setup needle 0 ?c \<le> ?m" using fbmh_setup_bounds(2)[OF m] .
  with lt have d: "p - h < ?m" by simp
  let ?i = "?m - 1 - (p - h)"
  have i: "?i + 1 < ?m" using d hp m by simp
  have e: "p + ?i = h + (?m - 1)" using d hp by simp
  have "buf ! (p + ?i) = needle ! ?i"
    by (rule occurs_at_nth[OF occ]) (use i in simp)
  then have "?c = needle ! ?i" unfolding e .
  then have "fbmh_setup needle 0 ?c \<le> ?m - 1 - ?i"
    using fbmh_setup_le[OF i] by simp
  also have "\<dots> = p - h" using d by simp
  finally show False using lt by simp
qed

lemma instr_blob_horspool_found:
  assumes m: "2 \<le> length needle"
    and occ: "occurs_at buf needle p"
  shows "h \<le> p \<Longrightarrow> (\<forall>q. h \<le> q \<and> q < p \<longrightarrow> \<not> occurs_at buf needle q) \<Longrightarrow>
         instr_blob_horspool buf needle (fbmh_setup needle 0) h (length buf - h) (int h + 1)
           = Some (Inr (int p + 1))"
proof (induction "p - h" arbitrary: h rule: less_induct)
  case less
  from occ have pb: "p + length needle \<le> length buf" by (simp add: occurs_at_def)
  with less.prems have hb: "h + length needle \<le> length buf" by simp
  show ?case
  proof (cases "h = p")
    case True
    with occ hb show ?thesis
      by (subst instr_blob_horspool.simps) (simp add: memcmp_eq_occurs)
  next
    case False
    with less.prems have hp: "h < p" by simp
    with less.prems have no: "\<not> occurs_at buf needle h" by simp
    let ?s = "fbmh_setup needle 0 (buf ! (h + (length needle - 1)))"
    have s1: "1 \<le> ?s" using fbmh_setup_bounds(1)[OF m] .
    have sp: "h + ?s \<le> p" using fbmh_skip_safe[OF m hb occ hp] .
    have IH: "instr_blob_horspool buf needle (fbmh_setup needle 0) (h + ?s) (length buf - (h + ?s))
                (int (h + ?s) + 1) = Some (Inr (int p + 1))"
      using less.hyps[of "h + ?s"] s1 sp hp less.prems by simp
    have pk: "peek buf (h + (length needle - 1)) = Inr (buf ! (h + (length needle - 1)))"
      using hb m by (simp add: peek_def)
    show ?thesis
      using IH hb no pk
      by (subst instr_blob_horspool.simps) (simp add: memcmp_eq_occurs add.assoc add.commute)
  qed
qed

lemma instr_blob_horspool_none:
  assumes m: "2 \<le> length needle"
  shows "(\<forall>q. h \<le> q \<longrightarrow> \<not> occurs_at buf needle q) \<Longrightarrow>
         instr_blob_horspool buf needle (fbmh_setup needle 0) h (length buf - h) (int h + 1)
           = Some (Inr 0)"
proof (induction "length buf - h" arbitrary: h rule: less_induct)
  case less
  show ?case
  proof (cases "length needle \<le> length buf - h")
    case False
    then show ?thesis
      by (subst instr_blob_horspool.simps) simp
  next
    case True
    with m have hb: "h + length needle \<le> length buf" by simp
    let ?s = "fbmh_setup needle 0 (buf ! (h + (length needle - 1)))"
    have s1: "1 \<le> ?s" using fbmh_setup_bounds(1)[OF m] .
    have IH: "instr_blob_horspool buf needle (fbmh_setup needle 0) (h + ?s) (length buf - (h + ?s))
                (int (h + ?s) + 1) = Some (Inr 0)"
      using less.hyps[of "h + ?s"] s1 hb m less.prems by simp
    have pk: "peek buf (h + (length needle - 1)) = Inr (buf ! (h + (length needle - 1)))"
      using hb m by (simp add: peek_def)
    from less.prems have no: "\<not> occurs_at buf needle h" by simp
    show ?thesis
      using IH hb no pk True
      by (subst instr_blob_horspool.simps) (simp add: memcmp_eq_occurs add.assoc add.commute)
  qed
qed


lemma occurs_at_single:
  "occurs_at buf [c] p \<longleftrightarrow> p < length buf \<and> buf ! p = c"
proof -
  have "take (Suc 0) (drop p buf) = [buf ! p]" if "p < length buf"
    using that by (simp add: take_Suc_conv_app_nth)
  then show ?thesis by (auto simp: occurs_at_def)
qed

lemma instr_blob_linear_found:
  assumes occ: "occurs_at buf [c] p"
  shows "h \<le> p \<Longrightarrow> (\<forall>q. h \<le> q \<and> q < p \<longrightarrow> \<not> occurs_at buf [c] q) \<Longrightarrow>
         instr_blob_linear buf c h (length buf - h) (int h + 1) = Some (Inr (int p + 1))"
proof (induction "p - h" arbitrary: h rule: less_induct)
  case less
  from occ have pb: "p < length buf" and pc: "buf ! p = c" by (simp_all add: occurs_at_single)
  show ?case
  proof (cases "h = p")
    case True
    with pb pc show ?thesis
      by (subst instr_blob_linear.simps) (simp add: peek_def)
  next
    case False
    with less.prems have hp: "h < p" by simp
    with less.prems pb have no: "buf ! h \<noteq> c" by (simp add: occurs_at_single)
    have IH: "instr_blob_linear buf c (h + 1) (length buf - (h + 1)) (int (h + 1) + 1)
                = Some (Inr (int p + 1))"
      using less.hyps[of "h + 1"] hp less.prems by simp
    show ?thesis
      using IH no hp pb
      by (subst instr_blob_linear.simps) (simp add: peek_def add.commute)
  qed
qed

lemma instr_blob_linear_none:
  "(\<forall>q. h \<le> q \<longrightarrow> \<not> occurs_at buf [c] q) \<Longrightarrow>
   instr_blob_linear buf c h (length buf - h) (int h + 1) = Some (Inr 0)"
proof (induction "length buf - h" arbitrary: h rule: less_induct)
  case less
  show ?case
  proof (cases "h < length buf")
    case False
    then show ?thesis
      by (subst instr_blob_linear.simps) simp
  next
    case True
    with less.prems have no: "buf ! h \<noteq> c" by (simp add: occurs_at_single)
    have IH: "instr_blob_linear buf c (h + 1) (length buf - (h + 1)) (int (h + 1) + 1)
                = Some (Inr 0)"
      using less.hyps[of "h + 1"] True less.prems by simp
    show ?thesis
      using IH no True
      by (subst instr_blob_linear.simps) (simp add: peek_def add.commute)
  qed
qed

text \<open>Backward Horspool.\<close>

lemma rbmh_skip_safe:
  assumes m: "2 \<le> length needle"
    and occ: "occurs_at buf needle p" and hp: "p < h"
  shows "rbmh_setup needle 0 (buf ! h) \<le> h - p"
proof (rule ccontr)
  let ?m = "length needle"
  assume "\<not> rbmh_setup needle 0 (buf ! h) \<le> h - p"
  then have lt: "h - p < rbmh_setup needle 0 (buf ! h)" by simp
  have "rbmh_setup needle 0 (buf ! h) \<le> ?m" using rbmh_setup_bounds(2)[OF m] .
  with lt have d: "h - p < ?m" by simp
  have e: "p + (h - p) = h" using hp by simp
  have "buf ! (p + (h - p)) = needle ! (h - p)"
    by (rule occurs_at_nth[OF occ]) (rule d)
  then have "buf ! h = needle ! (h - p)" unfolding e .
  then have "rbmh_setup needle 0 (buf ! h) \<le> h - p"
    using rbmh_setup_le[of "h - p" needle] d hp by simp
  with lt show False by simp
qed

lemma rinstr_blob_horspool_step:
  assumes "h + length needle \<le> length buf" "1 \<le> length needle"
    and "\<not> occurs_at buf needle h"
  shows "rinstr_blob_horspool buf needle skips h s found =
         (if skips (buf ! h) > s then Some (Inr 0)
          else rinstr_blob_horspool buf needle skips (h - skips (buf ! h)) (s - skips (buf ! h))
                 (found - int (skips (buf ! h))))"
  using assms
  by (subst rinstr_blob_horspool.simps) (simp add: memcmp_eq_occurs peek_def)

lemma rinstr_blob_horspool_found:
  assumes m: "2 \<le> length needle"
    and occ: "occurs_at buf needle p"
  shows "p \<le> h \<Longrightarrow> h + length needle \<le> length buf \<Longrightarrow> found = int h + 1 \<Longrightarrow>
         (\<forall>q. p < q \<and> q \<le> h \<longrightarrow> \<not> occurs_at buf needle q) \<Longrightarrow>
         rinstr_blob_horspool buf needle (rbmh_setup needle 0) h h found
           = Some (Inr (int p + 1))"
proof (induction "h - p" arbitrary: h found rule: less_induct)
  case less
  note hb = less.prems(2)
  show ?case
  proof (cases "h = p")
    case True
    with occ hb less.prems(3) show ?thesis
      by (subst rinstr_blob_horspool.simps) (simp add: memcmp_eq_occurs)
  next
    case False
    with less.prems have hp: "p < h" by simp
    with less.prems have no: "\<not> occurs_at buf needle h" by simp
    let ?s = "rbmh_setup needle 0 (buf ! h)"
    have s1: "1 \<le> ?s" using rbmh_setup_bounds(1)[OF m] .
    have sp: "?s \<le> h - p" using rbmh_skip_safe[OF m occ hp] .
    have m1: "1 \<le> length needle" using m by simp
    have sh: "\<not> ?s > h" using sp by linarith
    have "rinstr_blob_horspool buf needle (rbmh_setup needle 0) h h found =
          rinstr_blob_horspool buf needle (rbmh_setup needle 0) (h - ?s) (h - ?s) (found - int ?s)"
      using sh by (simp add: rinstr_blob_horspool_step[OF hb m1 no])
    also have "\<dots> = Some (Inr (int p + 1))"
    proof (rule less.hyps)
      show "h - ?s - p < h - p" using s1 sp hp by linarith
      show "p \<le> h - ?s" using sp hp by linarith
      show "h - ?s + length needle \<le> length buf" using hb by linarith
      show "found - int ?s = int (h - ?s) + 1" using less.prems(3) sp by linarith
      show "\<forall>q. p < q \<and> q \<le> h - ?s \<longrightarrow> \<not> occurs_at buf needle q"
        using less.prems(4) by (meson diff_le_self order_trans)
    qed
    finally show ?thesis .
  qed
qed

lemma rinstr_blob_horspool_none:
  assumes m: "2 \<le> length needle"
  shows "h + length needle \<le> length buf \<Longrightarrow> found = int h + 1 \<Longrightarrow>
         (\<forall>q. q \<le> h \<longrightarrow> \<not> occurs_at buf needle q) \<Longrightarrow>
         rinstr_blob_horspool buf needle (rbmh_setup needle 0) h h found = Some (Inr 0)"
proof (induction h arbitrary: found rule: less_induct)
  case (less h)
  note hb = less.prems(1)
  let ?s = "rbmh_setup needle 0 (buf ! h)"
  have s1: "1 \<le> ?s" using rbmh_setup_bounds(1)[OF m] .
  have m1: "1 \<le> length needle" using m by simp
  from less.prems have no: "\<not> occurs_at buf needle h" by simp
  show ?case
  proof (cases "?s > h")
    case True
    then show ?thesis
      by (simp add: rinstr_blob_horspool_step[OF hb m1 no])
  next
    case False
    then have "rinstr_blob_horspool buf needle (rbmh_setup needle 0) h h found =
          rinstr_blob_horspool buf needle (rbmh_setup needle 0) (h - ?s) (h - ?s) (found - int ?s)"
      by (simp add: rinstr_blob_horspool_step[OF hb m1 no])
    also have "\<dots> = Some (Inr 0)"
    proof (rule less.IH)
      show "h - ?s < h" using s1 False by linarith
      show "h - ?s + length needle \<le> length buf" using hb by linarith
      show "found - int ?s = int (h - ?s) + 1" using less.prems(2) False by linarith
      show "\<forall>q. q \<le> h - ?s \<longrightarrow> \<not> occurs_at buf needle q"
        using less.prems(3) by (meson diff_le_self order_trans)
    qed
    finally show ?thesis .
  qed
qed

lemma rinstr_blob_linear_step:
  assumes "h < length buf" "buf ! h \<noteq> c"
  shows "rinstr_blob_linear buf c h s found =
         (if s \<le> 0 then Some (Inr 0)
          else rinstr_blob_linear buf c (h - 1) (s - 1) (found - 1))"
  using assms
  by (subst rinstr_blob_linear.simps) (simp add: peek_def)

lemma rinstr_blob_linear_found:
  assumes occ: "occurs_at buf [c] p"
  shows "p \<le> h \<Longrightarrow> h < length buf \<Longrightarrow> found = int h + 1 \<Longrightarrow>
         (\<forall>q. p < q \<and> q \<le> h \<longrightarrow> \<not> occurs_at buf [c] q) \<Longrightarrow>
         rinstr_blob_linear buf c h h found = Some (Inr (int p + 1))"
proof (induction "h - p" arbitrary: h found rule: less_induct)
  case less
  from occ have pb: "p < length buf" and pc: "buf ! p = c" by (simp_all add: occurs_at_single)
  show ?case
  proof (cases "h = p")
    case True
    with pb pc less.prems(3) show ?thesis
      by (subst rinstr_blob_linear.simps) (simp add: peek_def)
  next
    case False
    with less.prems have hp: "p < h" by simp
    with less.prems have no: "buf ! h \<noteq> c" by (simp add: occurs_at_single)
    have "rinstr_blob_linear buf c h h found = rinstr_blob_linear buf c (h - 1) (h - 1) (found - 1)"
      using hp by (simp add: rinstr_blob_linear_step[OF less.prems(2) no])
    also have "\<dots> = Some (Inr (int p + 1))"
    proof (rule less.hyps)
      show "h - 1 - p < h - p" using hp by linarith
      show "p \<le> h - 1" using hp by linarith
      show "h - 1 < length buf" using less.prems(2) by linarith
      show "found - 1 = int (h - 1) + 1" using less.prems(3) hp by linarith
      show "\<forall>q. p < q \<and> q \<le> h - 1 \<longrightarrow> \<not> occurs_at buf [c] q"
        using less.prems(4) by (meson diff_le_self order_trans)
    qed
    finally show ?thesis .
  qed
qed

lemma rinstr_blob_linear_none:
  "h < length buf \<Longrightarrow> (\<forall>q. q \<le> h \<longrightarrow> \<not> occurs_at buf [c] q) \<Longrightarrow>
   rinstr_blob_linear buf c h h found = Some (Inr 0)"
proof (induction h arbitrary: found)
  case 0
  then show ?case
    by (simp add: rinstr_blob_linear_step occurs_at_single)
next
  case (Suc h)
  from Suc.prems have no: "buf ! Suc h \<noteq> c" by (simp add: occurs_at_single)
  have "rinstr_blob_linear buf c (Suc h) (Suc h) found = rinstr_blob_linear buf c h h (found - 1)"
    by (simp add: rinstr_blob_linear_step[OF Suc.prems(1) no])
  also have "\<dots> = Some (Inr 0)"
    using Suc by simp
  finally show ?case .
qed

lemma first_from:
  fixes P :: "nat \<Rightarrow> bool"
  assumes "P k" "h \<le> k"
  shows "\<exists>p. h \<le> p \<and> P p \<and> (\<forall>q. h \<le> q \<and> q < p \<longrightarrow> \<not> P q)"
proof -
  let ?Q = "\<lambda>p. h \<le> p \<and> P p"
  have "?Q k" using assms by simp
  then have "?Q (LEAST p. ?Q p)" by (rule LeastI)
  moreover have "\<forall>q. h \<le> q \<and> q < (LEAST p. ?Q p) \<longrightarrow> \<not> P q"
    using not_less_Least[of _ ?Q] by blast
  ultimately show ?thesis by blast
qed

lemma last_upto:
  fixes P :: "nat \<Rightarrow> bool"
  shows "P k \<Longrightarrow> k \<le> h \<Longrightarrow> \<exists>p. p \<le> h \<and> P p \<and> (\<forall>q. p < q \<and> q \<le> h \<longrightarrow> \<not> P q)"
proof (induction h)
  case 0
  then show ?case by auto
next
  case (Suc h)
  show ?case
  proof (cases "P (Suc h)")
    case True
    then show ?thesis by (intro exI[of _ "Suc h"]) auto
  next
    case False
    with Suc.prems have "k \<le> h" by (cases "k = Suc h") auto
    from Suc.IH[OF Suc.prems(1) this] obtain p where
      p: "p \<le> h" "P p" "\<forall>q. p < q \<and> q \<le> h \<longrightarrow> \<not> P q" by blast
    with False have "\<forall>q. p < q \<and> q \<le> Suc h \<longrightarrow> \<not> P q"
      by (metis le_Suc_eq)
    with p show ?thesis by (intro exI[of _ p]) auto
  qed
qed

text \<open>What the forward raw engine returns, for every start.\<close>

lemma instr_blob_cases:
  fixes start :: int
  assumes ne: "needle \<noteq> []"
  defines "h0 \<equiv> (if start > 1 then nat (start - 1) else 0)"
  shows "(\<exists>p. h0 \<le> p \<and> occurs_at buf needle p
              \<and> (\<forall>q. h0 \<le> q \<and> q < p \<longrightarrow> \<not> occurs_at buf needle q)
              \<and> instr_blob buf needle start = Some (Inr (int p + 1)))
         \<or> ((\<forall>q. h0 \<le> q \<longrightarrow> \<not> occurs_at buf needle q)
              \<and> instr_blob buf needle start = Some (Inr 0))"
proof (cases "\<exists>k. h0 \<le> k \<and> occurs_at buf needle k")
  case True
  then obtain k where k: "h0 \<le> k" "occurs_at buf needle k" by blast
  from first_from[of "occurs_at buf needle", OF k(2) k(1)] obtain p where
    p: "h0 \<le> p" "occurs_at buf needle p" "\<forall>q. h0 \<le> q \<and> q < p \<longrightarrow> \<not> occurs_at buf needle q"
    by blast
  from p(2) have pb: "p + length needle \<le> length buf" by (simp add: occurs_at_def)
  have f: "(if start > 1 then start else 1) = int h0 + 1" by (simp add: h0_def)
  have g: "(start > 1 \<and> start - 1 > int (length buf)) = False"
    using pb p(1) by (auto simp: h0_def)
  have fit: "(length needle > length buf - h0) = False" using pb p(1) by simp
  have "instr_blob buf needle start = Some (Inr (int p + 1))"
  proof (cases "length needle > 1")
    case True
    then have m: "2 \<le> length needle" by simp
    have "instr_blob buf needle start =
          instr_blob_horspool buf needle (fbmh_setup needle 0) h0 (length buf - h0) (int h0 + 1)"
      using ne True f g fit unfolding instr_blob_def Let_def h0_def[symmetric] by auto
    with instr_blob_horspool_found[OF m p(2) p(1) p(3)] show ?thesis by simp
  next
    case False
    with ne have l: "length needle = 1" by (cases needle) auto
    then have n1: "needle = [needle ! 0]" by (cases needle) auto
    have "instr_blob buf needle start =
          instr_blob_linear buf (needle ! 0) h0 (length buf - h0) (int h0 + 1)"
      using ne l f g fit unfolding instr_blob_def Let_def h0_def[symmetric] by auto
    moreover have "instr_blob_linear buf (needle ! 0) h0 (length buf - h0) (int h0 + 1)
                     = Some (Inr (int p + 1))"
      using instr_blob_linear_found[of buf "needle ! 0" p h0] p n1 by simp
    ultimately show ?thesis by simp
  qed
  with p show ?thesis by blast
next
  case False
  then have no: "\<forall>q. h0 \<le> q \<longrightarrow> \<not> occurs_at buf needle q" by blast
  have f: "(if start > 1 then start else 1) = int h0 + 1" by (simp add: h0_def)
  have "instr_blob buf needle start = Some (Inr 0)"
  proof (cases "start > 1 \<and> start - 1 > int (length buf)")
    case True
    then show ?thesis by (simp add: instr_blob_def)
  next
    case False
    then have g: "(start > 1 \<and> start - 1 > int (length buf)) = False" by simp
    show ?thesis
    proof (cases "length needle > length buf - h0")
      case True
      with g show ?thesis unfolding instr_blob_def Let_def h0_def[symmetric] by auto
    next
      case False
      then have fit: "(length needle > length buf - h0) = False" by simp
      show ?thesis
      proof (cases "length needle > 1")
        case True
        then have m: "2 \<le> length needle" by simp
        have "instr_blob buf needle start =
              instr_blob_horspool buf needle (fbmh_setup needle 0) h0 (length buf - h0) (int h0 + 1)"
          using ne True f g fit unfolding instr_blob_def Let_def h0_def[symmetric] by auto
        with instr_blob_horspool_none[OF m no] show ?thesis by simp
      next
        case False
        with ne have l: "length needle = 1" by (cases needle) auto
        then have n1: "needle = [needle ! 0]" by (cases needle) auto
        have "instr_blob buf needle start =
              instr_blob_linear buf (needle ! 0) h0 (length buf - h0) (int h0 + 1)"
          using ne l f g fit unfolding instr_blob_def Let_def h0_def[symmetric] by auto
        moreover have "instr_blob_linear buf (needle ! 0) h0 (length buf - h0) (int h0 + 1)
                         = Some (Inr 0)"
          using instr_blob_linear_none[of h0 buf "needle ! 0"] no n1 by simp
        ultimately show ?thesis by simp
      qed
    qed
  qed
  with no show ?thesis by blast
qed


text \<open>What the backward raw engine returns, for every start.\<close>

lemma rinstr_blob_cases:
  fixes start :: int
  assumes ne: "needle \<noteq> []" and st: "0 < start" and fit: "length needle \<le> length buf"
  defines "h0 \<equiv> (if start > 1
                   then (if start - 1 > int (length buf - length needle)
                         then length buf - length needle else nat (start - 1))
                   else 0)"
  shows "(\<exists>p. p \<le> h0 \<and> occurs_at buf needle p
              \<and> (\<forall>q. p < q \<and> q \<le> h0 \<longrightarrow> \<not> occurs_at buf needle q)
              \<and> rinstr_blob buf needle start = Some (Inr (int p + 1)))
         \<or> ((\<forall>q. q \<le> h0 \<longrightarrow> \<not> occurs_at buf needle q)
              \<and> rinstr_blob buf needle start = Some (Inr 0))"
proof -
  have hb: "h0 + length needle \<le> length buf"
    using fit by (auto simp: h0_def)
  have e: "rinstr_blob buf needle start =
           (if length needle > 1
            then rinstr_blob_horspool buf needle (rbmh_setup needle 0) h0 h0 (int h0 + 1)
            else rinstr_blob_linear buf (needle ! 0) h0 h0 (int h0 + 1))"
  proof -
    have nd: "nat (int (length buf) - int (length needle)) = length buf - length needle"
      by simp
    show ?thesis
      using ne st fit unfolding rinstr_blob_def Let_def h0_def
      by (auto simp: nd add.commute)
  qed
  show ?thesis
  proof (cases "\<exists>k. k \<le> h0 \<and> occurs_at buf needle k")
    case True
    then obtain k where k: "k \<le> h0" "occurs_at buf needle k" by blast
    from last_upto[of "occurs_at buf needle", OF k(2) k(1)] obtain p where
      p: "p \<le> h0" "occurs_at buf needle p" "\<forall>q. p < q \<and> q \<le> h0 \<longrightarrow> \<not> occurs_at buf needle q"
      by blast
    have "rinstr_blob buf needle start = Some (Inr (int p + 1))"
    proof (cases "length needle > 1")
      case True
      then have m: "2 \<le> length needle" by simp
      from rinstr_blob_horspool_found[OF m p(2) p(1) hb _ p(3), of "int h0 + 1"] e True
      show ?thesis by simp
    next
      case False
      with ne have l: "length needle = 1" by (cases needle) auto
      then have n1: "needle = [needle ! 0]" by (cases needle) auto
      have "rinstr_blob_linear buf (needle ! 0) h0 h0 (int h0 + 1) = Some (Inr (int p + 1))"
        using rinstr_blob_linear_found[of buf "needle ! 0" p h0 "int h0 + 1"] p n1 hb l by simp
      with e False show ?thesis by simp
    qed
    with p show ?thesis by blast
  next
    case False
    then have no: "\<forall>q. q \<le> h0 \<longrightarrow> \<not> occurs_at buf needle q" by blast
    have "rinstr_blob buf needle start = Some (Inr 0)"
    proof (cases "length needle > 1")
      case True
      then have m: "2 \<le> length needle" by simp
      from rinstr_blob_horspool_none[OF m hb _ no, of "int h0 + 1"] e True
      show ?thesis by simp
    next
      case False
      with ne have l: "length needle = 1" by (cases needle) auto
      then have n1: "needle = [needle ! 0]" by (cases needle) auto
      have "rinstr_blob_linear buf (needle ! 0) h0 h0 (int h0 + 1) = Some (Inr 0)"
        using rinstr_blob_linear_none[of h0 buf "needle ! 0" "int h0 + 1"] no n1 hb l by simp
      with e False show ?thesis by simp
    qed
    with no show ?thesis by blast
  qed
qed

text \<open>The reference search.\<close>

lemma match_here_occurs: "match_here hay needle \<longleftrightarrow> occurs_at hay needle 0"
  by (induction hay needle rule: match_here.induct) (auto simp: occurs_at_def)

lemma occurs_at_Cons: "occurs_at (x # xs) needle (Suc p) \<longleftrightarrow> occurs_at xs needle p"
  by (simp add: occurs_at_def)

lemma naive_search_none:
  "(\<forall>p. \<not> occurs_at hay needle p) \<Longrightarrow> naive_search hay needle pos = 0"
proof (induction hay arbitrary: pos)
  case Nil
  then show ?case by (simp add: match_here_occurs)
next
  case (Cons x xs)
  then have "\<forall>p. \<not> occurs_at xs needle p" by (metis occurs_at_Cons)
  with Cons show ?case by (simp add: match_here_occurs)
qed

lemma naive_search_first:
  "occurs_at hay needle p \<Longrightarrow> (\<forall>q<p. \<not> occurs_at hay needle q) \<Longrightarrow>
   naive_search hay needle pos = pos + int p"
proof (induction hay arbitrary: pos p)
  case Nil
  then have "p = 0" by (simp add: occurs_at_def)
  with Nil show ?case by (simp add: match_here_occurs)
next
  case (Cons x xs)
  show ?case
  proof (cases p)
    case 0
    with Cons.prems show ?thesis by (simp add: match_here_occurs)
  next
    case (Suc p')
    with Cons.prems have a: "occurs_at xs needle p'" by (simp add: occurs_at_Cons)
    have b: "\<forall>q<p'. \<not> occurs_at xs needle q"
      using Cons.prems(2) Suc by (metis occurs_at_Cons Suc_less_eq)
    have c: "\<not> occurs_at (x # xs) needle 0" using Cons.prems(2) Suc by simp
    from Cons.IH[OF a b, of "pos + 1"] c Suc show ?thesis
      by (simp add: match_here_occurs)
  qed
qed

text \<open>
  C1. For every raw haystack (of a length that \<open>sqlite3_value_bytes\<close> can report)
  and every non-empty needle: if the needle occurs nowhere, \<open>instr_blob\<close> with the
  default start 1 and \<open>rinstr_blob\<close> with the default start \<open>INT64_MAX\<close> both
  return 0, as the naive reference search does; if \<open>p\<close> is the offset of the
  first occurrence, \<open>instr_blob\<close> returns the 1-based position \<open>p + 1\<close>, as
  the reference search does; if \<open>r\<close> is the offset of the last occurrence,
  \<open>rinstr_blob\<close> returns \<open>r + 1\<close>. With one occurrence only, \<open>p = r\<close>.
\<close>

theorem blob_search_first_and_last:
  assumes ne: "needle \<noteq> []" and len: "length hay < 2 ^ 31"
  shows "((\<forall>p. \<not> occurs_at hay needle p) \<longrightarrow>
            instr_blob hay needle 1 = Some (Inr 0)
            \<and> rinstr_blob hay needle INT64_MAX = Some (Inr 0)
            \<and> naive_search hay needle 1 = 0)
       \<and> (occurs_at hay needle p \<and> (\<forall>q<p. \<not> occurs_at hay needle q) \<longrightarrow>
            instr_blob hay needle 1 = Some (Inr (int p + 1))
            \<and> naive_search hay needle 1 = int p + 1)
       \<and> (occurs_at hay needle r \<and> (\<forall>q>r. \<not> occurs_at hay needle q) \<longrightarrow>
            rinstr_blob hay needle INT64_MAX = Some (Inr (int r + 1)))"
proof (intro conjI impI)
  assume no: "\<forall>p. \<not> occurs_at hay needle p"
  from instr_blob_cases[OF ne, of 1 hay] no
  show "instr_blob hay needle 1 = Some (Inr 0)" by auto
  show "rinstr_blob hay needle INT64_MAX = Some (Inr 0)"
  proof (cases "length needle \<le> length hay")
    case True
    from rinstr_blob_cases[OF ne _ True, of INT64_MAX] no show ?thesis
      by (auto simp: INT64_MAX_def)
  next
    case False
    then show ?thesis by (simp add: rinstr_blob_def INT64_MAX_def)
  qed
  from no show "naive_search hay needle 1 = 0" by (rule naive_search_none)
next
  assume a: "occurs_at hay needle p \<and> (\<forall>q<p. \<not> occurs_at hay needle q)"
  from instr_blob_cases[OF ne, of 1 hay] a
  obtain p' where p': "occurs_at hay needle p'"
      "\<forall>q. q < p' \<longrightarrow> \<not> occurs_at hay needle q"
      "instr_blob hay needle 1 = Some (Inr (int p' + 1))"
    by auto
  from a p' have "p' = p" by (metis nat_neq_iff)
  with p' show "instr_blob hay needle 1 = Some (Inr (int p + 1))" by simp
  from a show "naive_search hay needle 1 = int p + 1"
    using naive_search_first[of hay needle p 1] by simp
next
  assume a: "occurs_at hay needle r \<and> (\<forall>q>r. \<not> occurs_at hay needle q)"
  then have fit: "length needle \<le> length hay" and rb: "r \<le> length hay - length needle"
    by (auto simp: occurs_at_def)
  have big: "INT64_MAX - 1 > int (length hay - length needle)"
  proof -
    have "int (length hay - length needle) < 2 ^ 31" using len by simp
    then show ?thesis by (simp add: INT64_MAX_def)
  qed
  from rinstr_blob_cases[OF ne _ fit, of INT64_MAX] big rb a
  obtain p' where p': "p' \<le> length hay - length needle" "occurs_at hay needle p'"
      "\<forall>q. p' < q \<and> q \<le> length hay - length needle \<longrightarrow> \<not> occurs_at hay needle q"
      "rinstr_blob hay needle INT64_MAX = Some (Inr (int p' + 1))"
    by (auto simp: INT64_MAX_def)
  from a p' rb have "p' = r" by (metis nat_neq_iff)
  with p' show "rinstr_blob hay needle INT64_MAX = Some (Inr (int r + 1))" by simp
qed

text \<open>An instance without an occurrence, and the instance of the spec's scenario.\<close>

theorem blob_search_first_and_last_witness:
  "instr_blob [0x61,0x62] [0x63] 1 = Some (Inr 0)
   \<and> rinstr_blob [0x61,0x62] [0x63] INT64_MAX = Some (Inr 0)
   \<and> naive_search [0x61,0x62::byte] [0x63] 1 = 0
   \<and> occurs_at [0x61,0x62,0x63,0x61,0x62,0x63,0x61,0x62,0x63::byte] [0x62,0x63,0x61] 1
   \<and> instr_blob [0x61,0x62,0x63,0x61,0x62,0x63,0x61,0x62,0x63] [0x62,0x63,0x61] 1 = Some (Inr 2)
   \<and> naive_search [0x61,0x62,0x63,0x61,0x62,0x63,0x61,0x62,0x63::byte] [0x62,0x63,0x61] 1 = 2
   \<and> occurs_at [0x61,0x62,0x63,0x61,0x62,0x63,0x61,0x62,0x63::byte] [0x62,0x63,0x61] 4
   \<and> rinstr_blob [0x61,0x62,0x63,0x61,0x62,0x63,0x61,0x62,0x63] [0x62,0x63,0x61] INT64_MAX
       = Some (Inr 5)"
proof -
  let ?ab = "[0x61,0x62] :: byte list"
  let ?c = "[0x63] :: byte list"
  let ?h = "[0x61,0x62,0x63,0x61,0x62,0x63,0x61,0x62,0x63] :: byte list"
  let ?n = "[0x62,0x63,0x61] :: byte list"
  have no: "\<forall>p. \<not> occurs_at ?ab ?c p"
  proof (intro allI notI)
    fix p assume a: "occurs_at ?ab ?c p"
    then have "p < 2" by (simp add: occurs_at_single)
    then have "p = 0 \<or> p = 1" by linarith
    with a show False by (auto simp: occurs_at_single)
  qed
  have only: "q = 1 \<or> q = 4" if a: "occurs_at ?h ?n q" for q
  proof -
    from a have "q + 3 \<le> 9" by (simp add: occurs_at_def)
    then consider "q = 0" | "q = 1" | "q = 2" | "q = 3" | "q = 4" | "q = 5" | "q = 6"
      by linarith
    then show ?thesis
      using a by cases (simp_all add: occurs_at_def)
  qed
  have o1: "occurs_at ?h ?n 1" by (simp add: occurs_at_def)
  have o4: "occurs_at ?h ?n 4" by (simp add: occurs_at_def)
  have f: "\<forall>q<1. \<not> occurs_at ?h ?n q" using only by fastforce
  have l: "\<forall>q>4. \<not> occurs_at ?h ?n q" using only by fastforce
  from blob_search_first_and_last[of ?c ?ab 0 0] no
  have A: "instr_blob ?ab ?c 1 = Some (Inr 0) \<and> rinstr_blob ?ab ?c INT64_MAX = Some (Inr 0)
           \<and> naive_search ?ab ?c 1 = 0"
    by simp
  from blob_search_first_and_last[of ?n ?h 1 4] o1 o4 f l
  have B: "instr_blob ?h ?n 1 = Some (Inr 2) \<and> naive_search ?h ?n 1 = 2
           \<and> rinstr_blob ?h ?n INT64_MAX = Some (Inr 5)"
    by simp
  from A B o1 o4 show ?thesis by simp
qed

text \<open>Raw searches stay in range.\<close>

lemma occurs_at_bound: "occurs_at buf needle p \<Longrightarrow> p + length needle \<le> length buf"
  by (simp add: occurs_at_def)

lemma instr_blob_range:
  "\<exists>r. instr_blob buf needle start = Some (Inr r) \<and> (r = 0 \<or> 1 \<le> r \<and> r \<le> int (length buf) + 1)"
proof (cases "needle = []")
  case True
  then show ?thesis by (auto simp: instr_blob_def)
next
  case False
  from instr_blob_cases[OF False, of start buf] show ?thesis
    by (auto dest: occurs_at_bound)
qed

lemma rinstr_blob_range:
  "\<exists>r. rinstr_blob buf needle start = Some (Inr r) \<and> (r = 0 \<or> 1 \<le> r \<and> r \<le> int (length buf) + 1)"
proof (cases "needle = [] \<or> start \<le> 0 \<or> length needle > length buf")
  case True
  then show ?thesis by (auto simp: rinstr_blob_def Let_def)
next
  case False
  then have ne: "needle \<noteq> []" and st: "0 < start" and fit: "length needle \<le> length buf"
    by auto
  from rinstr_blob_cases[OF ne st fit] show ?thesis
    by (auto dest: occurs_at_bound)
qed

lemma report_in_range:
  "r = Some (Inr x) \<Longrightarrow> 0 \<le> x \<Longrightarrow> report malformed r = Some (Inr (ResultInt64 x))"
  by (simp add: report_def)

text \<open>
  C10. For every raw haystack, needle and start, \<open>instr_blob\<close> and
  \<open>rinstr_blob\<close> return, and what they return is 0 or lies between 1 and the
  length of the haystack plus 1; it is never \<open>-1\<close>. Hence a call of either
  adapter with two BLOB arguments ends with a result that is not an error
  message: the malformed-text branch is not reached.
\<close>

theorem blob_search_never_malformed:
  "(\<exists>r. instr_blob hay needle start = Some (Inr r)
          \<and> (r = 0 \<or> 1 \<le> r \<and> r \<le> int (length hay) + 1))
   \<and> (\<exists>r. rinstr_blob hay needle start = Some (Inr r)
          \<and> (r = 0 \<or> 1 \<le> r \<and> r \<le> int (length hay) + 1))
   \<and> (2 \<le> length args \<and> value_type (args ! 0) = SQLITE_BLOB
         \<and> value_type (args ! 1) = SQLITE_BLOB \<longrightarrow>
       (\<exists>res. instr_func malformed en args = Some (Inr res) \<and> (\<forall>msg. res \<noteq> ResultError msg))
       \<and> (\<exists>res. rinstr_func malformed en args = Some (Inr res) \<and> (\<forall>msg. res \<noteq> ResultError msg)))"
proof (intro conjI impI)
  show "\<exists>r. instr_blob hay needle start = Some (Inr r)
          \<and> (r = 0 \<or> 1 \<le> r \<and> r \<le> int (length hay) + 1)"
    by (rule instr_blob_range)
  show "\<exists>r. rinstr_blob hay needle start = Some (Inr r)
          \<and> (r = 0 \<or> 1 \<le> r \<and> r \<le> int (length hay) + 1)"
    by (rule rinstr_blob_range)
next
  assume a: "2 \<le> length args \<and> value_type (args ! 0) = SQLITE_BLOB
         \<and> value_type (args ! 1) = SQLITE_BLOB"
  have i: "\<exists>x. instr_blob b n s = Some (Inr x) \<and> 0 \<le> x" for b n s
    using instr_blob_range[of b n s] by auto
  have "\<exists>res. report malformed (instr_blob b n s) = Some (Inr res) \<and> (\<forall>msg. res \<noteq> ResultError msg)"
    for b n s
    using i[of b n s] by (auto simp: report_def)
  then show "\<exists>res. instr_func malformed en args = Some (Inr res) \<and> (\<forall>msg. res \<noteq> ResultError msg)"
    using a by (simp add: instr_func_def Let_def)
next
  assume a: "2 \<le> length args \<and> value_type (args ! 0) = SQLITE_BLOB
         \<and> value_type (args ! 1) = SQLITE_BLOB"
  have i: "\<exists>x. rinstr_blob b n s = Some (Inr x) \<and> 0 \<le> x" for b n s
    using rinstr_blob_range[of b n s] by auto
  have "\<exists>res. report malformed (rinstr_blob b n s) = Some (Inr res) \<and> (\<forall>msg. res \<noteq> ResultError msg)"
    for b n s
    using i[of b n s] by (auto simp: report_def)
  then show "\<exists>res. rinstr_func malformed en args = Some (Inr res) \<and> (\<forall>msg. res \<noteq> ResultError msg)"
    using a by (simp add: rinstr_func_def Let_def)
qed

text \<open>The instance \<open>instr(X'61', X'61')\<close>.\<close>

theorem blob_search_never_malformed_witness:
  "2 \<le> length [example_blob, example_blob]
   \<and> value_type ([example_blob, example_blob] ! 0) = SQLITE_BLOB
   \<and> value_type ([example_blob, example_blob] ! 1) = SQLITE_BLOB
   \<and> (\<exists>r. instr_blob [0x61] [0x61] 1 = Some (Inr r) \<and> (r = 0 \<or> 1 \<le> r \<and> r \<le> int (length [0x61 :: byte]) + 1))
   \<and> (\<exists>r. rinstr_blob [0x61] [0x61] 1 = Some (Inr r) \<and> (r = 0 \<or> 1 \<le> r \<and> r \<le> int (length [0x61 :: byte]) + 1))
   \<and> (\<exists>res. instr_func malformed_8 LittleEndian [example_blob, example_blob] = Some (Inr res)
          \<and> (\<forall>msg. res \<noteq> ResultError msg))
   \<and> (\<exists>res. rinstr_func malformed_8 LittleEndian [example_blob, example_blob] = Some (Inr res)
          \<and> (\<forall>msg. res \<noteq> ResultError msg))
   \<and> instr_func malformed_8 LittleEndian [example_blob, example_blob] = Some (Inr (ResultInt64 1))
   \<and> rinstr_func malformed_8 LittleEndian [example_blob, example_blob] = Some (Inr (ResultInt64 1))"
proof -
  have t: "value_type example_blob = SQLITE_BLOB" by (simp add: example_blob_def)
  have a: "instr_func malformed_8 LittleEndian [example_blob, example_blob] = Some (Inr (ResultInt64 1))"
    by code_simp
  have b: "rinstr_func malformed_8 LittleEndian [example_blob, example_blob] = Some (Inr (ResultInt64 1))"
    by code_simp
  from blob_search_never_malformed[of "[0x61]" "[0x61]" 1 "[example_blob, example_blob]"
         malformed_8 LittleEndian] t a b
  show ?thesis by simp
qed

section \<open>Argument adapter: kinds\<close>

lemma malformed_strings_differ:
  "malformed_8 \<noteq> confused" "malformed_16 \<noteq> confused" "malformed_16 \<noteq> malformed_8"
  by (simp_all add: malformed_8_def malformed_16_def confused_def)

lemma report_not_confused:
  "malformed \<noteq> confused \<Longrightarrow> report malformed r \<noteq> Some (Inr (ResultError confused))"
  by (auto simp: report_def split: option.splits sum.splits)

text \<open>
  C9 (as amended). A call of \<open>instr\<close> or \<open>rinstr\<close> with two or three
  arguments, of which one of the first two is a BLOB and the other a text (and
  the third, if any, not NULL), is not rejected: both arguments are read as text
  in the encoding of the registration and the text engine of that encoding
  searches them. The result is never the usage error.
\<close>

theorem mixed_kinds_searched_as_text:
  assumes argc: "length args = 2 \<or> length args = 3 \<and> value_type (args ! 2) \<noteq> SQLITE_NULL"
    and mixed: "value_type (args ! 0) = SQLITE_BLOB \<and> value_type (args ! 1) = SQLITE_TEXT
                \<or> value_type (args ! 0) = SQLITE_TEXT \<and> value_type (args ! 1) = SQLITE_BLOB"
  shows "instr_func malformed_8 en args =
           (case value_text (args ! 0) of
              None \<Rightarrow> Some (Inr ResultErrorNomem)
            | Some haystack \<Rightarrow>
                (case value_text (args ! 1) of
                   None \<Rightarrow> Some (Inr ResultErrorNomem)
                 | Some needle \<Rightarrow>
                     report malformed_8
                       (instr_utf8 haystack needle
                          (if length args = 3 then value_int64 (args ! 2) else 1))))
         \<and> rinstr_func malformed_8 en args =
           (case value_text (args ! 0) of
              None \<Rightarrow> Some (Inr ResultErrorNomem)
            | Some haystack \<Rightarrow>
                (case value_text (args ! 1) of
                   None \<Rightarrow> Some (Inr ResultErrorNomem)
                 | Some needle \<Rightarrow>
                     report malformed_8
                       (rinstr_utf8 haystack needle
                          (if length args = 3 then value_int64 (args ! 2) else INT64_MAX))))
         \<and> instr_func malformed_16 en args =
           (case value_text16 (args ! 0) of
              None \<Rightarrow> Some (Inr ResultErrorNomem)
            | Some haystack \<Rightarrow>
                (case value_text16 (args ! 1) of
                   None \<Rightarrow> Some (Inr ResultErrorNomem)
                 | Some needle \<Rightarrow>
                     report malformed_16
                       (instr_utf16 en haystack needle
                          (if length args = 3 then value_int64 (args ! 2) else 1))))
         \<and> rinstr_func malformed_16 en args =
           (case value_text16 (args ! 0) of
              None \<Rightarrow> Some (Inr ResultErrorNomem)
            | Some haystack \<Rightarrow>
                (case value_text16 (args ! 1) of
                   None \<Rightarrow> Some (Inr ResultErrorNomem)
                 | Some needle \<Rightarrow>
                     report malformed_16
                       (rinstr_utf16 en haystack needle
                          (if length args = 3 then value_int64 (args ! 2) else INT64_MAX))))
         \<and> instr_func malformed_8 en args \<noteq> Some (Inr (ResultError confused))
         \<and> rinstr_func malformed_8 en args \<noteq> Some (Inr (ResultError confused))
         \<and> instr_func malformed_16 en args \<noteq> Some (Inr (ResultError confused))
         \<and> rinstr_func malformed_16 en args \<noteq> Some (Inr (ResultError confused))"
proof -
  from argc have l: "(length args < 2) = False" by auto
  from argc have n3: "(3 \<le> length args \<and> value_type (args ! 2) = SQLITE_NULL) = False" by auto
  from argc have s1: "(if 3 \<le> length args then value_int64 (args ! 2) else d)
                      = (if length args = 3 then value_int64 (args ! 2) else d)" for d :: int
    by auto
  from mixed have nn: "(value_type (args ! 0) = SQLITE_NULL) = False"
      "(value_type (args ! 1) = SQLITE_NULL) = False"
    and nb: "(value_type (args ! 0) = SQLITE_BLOB \<and> value_type (args ! 1) = SQLITE_BLOB) = False"
    by auto
  have ms: "(malformed_16 = malformed_8) = False"
    by (simp add: malformed_strings_differ)
  note rules = Let_def l n3 s1 nn nb ms if_False if_True HOL.simp_thms
  have a: "instr_func malformed_8 en args =
           (case value_text (args ! 0) of
              None \<Rightarrow> Some (Inr ResultErrorNomem)
            | Some haystack \<Rightarrow>
                (case value_text (args ! 1) of
                   None \<Rightarrow> Some (Inr ResultErrorNomem)
                 | Some needle \<Rightarrow>
                     report malformed_8
                       (instr_utf8 haystack needle
                          (if length args = 3 then value_int64 (args ! 2) else 1))))"
    by (simp only: instr_func_def rules)
  have b: "rinstr_func malformed_8 en args =
           (case value_text (args ! 0) of
              None \<Rightarrow> Some (Inr ResultErrorNomem)
            | Some haystack \<Rightarrow>
                (case value_text (args ! 1) of
                   None \<Rightarrow> Some (Inr ResultErrorNomem)
                 | Some needle \<Rightarrow>
                     report malformed_8
                       (rinstr_utf8 haystack needle
                          (if length args = 3 then value_int64 (args ! 2) else INT64_MAX))))"
    by (simp only: rinstr_func_def rules)
  have c: "instr_func malformed_16 en args =
           (case value_text16 (args ! 0) of
              None \<Rightarrow> Some (Inr ResultErrorNomem)
            | Some haystack \<Rightarrow>
                (case value_text16 (args ! 1) of
                   None \<Rightarrow> Some (Inr ResultErrorNomem)
                 | Some needle \<Rightarrow>
                     report malformed_16
                       (instr_utf16 en haystack needle
                          (if length args = 3 then value_int64 (args ! 2) else 1))))"
    by (simp only: instr_func_def rules)
  have d: "rinstr_func malformed_16 en args =
           (case value_text16 (args ! 0) of
              None \<Rightarrow> Some (Inr ResultErrorNomem)
            | Some haystack \<Rightarrow>
                (case value_text16 (args ! 1) of
                   None \<Rightarrow> Some (Inr ResultErrorNomem)
                 | Some needle \<Rightarrow>
                     report malformed_16
                       (rinstr_utf16 en haystack needle
                          (if length args = 3 then value_int64 (args ! 2) else INT64_MAX))))"
    by (simp only: rinstr_func_def rules)
  have e: "instr_func malformed_8 en args \<noteq> Some (Inr (ResultError confused))"
    unfolding a by (simp add: report_not_confused malformed_strings_differ split: option.splits)
  have f: "rinstr_func malformed_8 en args \<noteq> Some (Inr (ResultError confused))"
    unfolding b by (simp add: report_not_confused malformed_strings_differ split: option.splits)
  have g: "instr_func malformed_16 en args \<noteq> Some (Inr (ResultError confused))"
    unfolding c by (simp add: report_not_confused malformed_strings_differ split: option.splits)
  have h: "rinstr_func malformed_16 en args \<noteq> Some (Inr (ResultError confused))"
    unfolding d by (simp add: report_not_confused malformed_strings_differ split: option.splits)
  from a b c d e f g h show ?thesis by (intro conjI)
qed

text \<open>The instance \<open>instr(X'61', 'a')\<close>.\<close>

theorem mixed_kinds_searched_as_text_witness:
  "length [example_blob, example_text] = 2
   \<and> value_type ([example_blob, example_text] ! 0) = SQLITE_BLOB
   \<and> value_type ([example_blob, example_text] ! 1) = SQLITE_TEXT
   \<and> instr_func malformed_8 LittleEndian [example_blob, example_text]
       = report malformed_8 (instr_utf8 [0x61] [0x61] 1)
   \<and> rinstr_func malformed_8 LittleEndian [example_blob, example_text]
       = report malformed_8 (rinstr_utf8 [0x61] [0x61] INT64_MAX)
   \<and> instr_func malformed_16 LittleEndian [example_blob, example_text]
       = report malformed_16 (instr_utf16 LittleEndian [0x61] [0x61] 1)
   \<and> rinstr_func malformed_16 LittleEndian [example_blob, example_text]
       = report malformed_16 (rinstr_utf16 LittleEndian [0x61] [0x61] INT64_MAX)
   \<and> instr_func malformed_8 LittleEndian [example_blob, example_text]
       \<noteq> Some (Inr (ResultError confused))"
proof -
  have t: "value_type example_blob = SQLITE_BLOB" "value_type example_text = SQLITE_TEXT"
    "value_text example_blob = Some [0x61]" "value_text example_text = Some [0x61]"
    "value_text16 example_blob = Some [0x61]" "value_text16 example_text = Some [0x61]"
    by (simp_all add: example_blob_def example_text_def)
  from mixed_kinds_searched_as_text[of "[example_blob, example_text]" LittleEndian] t
  show ?thesis by (simp add: report_not_confused malformed_strings_differ)
qed

text \<open>C9 as stated does not hold: \<open>instr(X'61', 'a')\<close> under the UTF-8 registration
  is 1.\<close>

theorem mixed_kinds_not_rejected:
  "instr_func malformed_8 LittleEndian [example_blob, example_text] = Some (Inr (ResultInt64 1))
   \<and> instr_func malformed_8 LittleEndian [example_blob, example_text]
       \<noteq> Some (Inr (ResultError confused))"
  by code_simp

section \<open>Forward cursor steps\<close>

lemma adv_ok_fail: "adv_ok p s (Inr (p, s, -1))"
  by (simp add: adv_ok_def)

lemma adv_ok_step: "1 \<le> k \<Longrightarrow> k \<le> 4 \<Longrightarrow> k \<le> s \<Longrightarrow> adv_ok p s (Inr (p + k, s - k, uint w))"
  by (auto simp: adv_ok_def)

lemma adv_ok_if: "(c \<Longrightarrow> adv_ok p s a) \<Longrightarrow> (\<not> c \<Longrightarrow> adv_ok p s b) \<Longrightarrow> adv_ok p s (if c then a else b)"
  by simp

lemma adv_ok_load:
  "i < s \<Longrightarrow> p + s \<le> length buf \<Longrightarrow> (\<And>c. adv_ok p s (f c)) \<Longrightarrow>
   adv_ok p s (case load8 buf (p + i) of Inl e \<Rightarrow> Inl e | Inr c \<Rightarrow> f c)"
  by (simp add: load8_def peek_def)

lemma adv_ok_load0:
  "0 < s \<Longrightarrow> p + s \<le> length buf \<Longrightarrow> (\<And>c. adv_ok p s (f c)) \<Longrightarrow>
   adv_ok p s (case load8 buf p of Inl e \<Rightarrow> Inl e | Inr c \<Rightarrow> f c)"
  by (simp add: load8_def peek_def)

lemma UTF8_ADVANCE_ok:
  assumes "p + s \<le> length buf"
  shows "adv_ok p s (UTF8_ADVANCE buf p s)"
  unfolding UTF8_ADVANCE_def Let_def
  by (rule adv_ok_if adv_ok_fail
      | (rule adv_ok_load0 adv_ok_load, (simp; fail), rule assms)
      | (rule adv_ok_step; simp; fail))+


lemma adv16_ok_fail: "adv16_ok p s (Inr (p, s, -1))"
  by (simp add: adv16_ok_def)

lemma adv16_ok_step1: "2 \<le> s \<Longrightarrow> adv16_ok p s (Inr (p + 1, s - 2, uint w))"
  by (auto simp: adv16_ok_def intro: exI[of _ 1])

lemma adv16_ok_step2: "4 \<le> s \<Longrightarrow> adv16_ok p s (Inr (p + 2, s - 4, uint w))"
  by (auto simp: adv16_ok_def intro: exI[of _ 2])

lemma adv16_ok_if:
  "(c \<Longrightarrow> adv16_ok p s a) \<Longrightarrow> (\<not> c \<Longrightarrow> adv16_ok p s b) \<Longrightarrow> adv16_ok p s (if c then a else b)"
  by simp

lemma adv16_ok_load:
  "2 * i + 2 \<le> s \<Longrightarrow> 2 * p + s \<le> 2 * length buf \<Longrightarrow> (\<And>c. adv16_ok p s (f c)) \<Longrightarrow>
   adv16_ok p s (case load16 buf (p + i) of Inl e \<Rightarrow> Inl e | Inr c \<Rightarrow> f c)"
  by (simp add: load16_def peek_def)

lemma adv16_ok_load0:
  "2 \<le> s \<Longrightarrow> 2 * p + s \<le> 2 * length buf \<Longrightarrow> (\<And>c. adv16_ok p s (f c)) \<Longrightarrow>
   adv16_ok p s (case load16 buf p of Inl e \<Rightarrow> Inl e | Inr c \<Rightarrow> f c)"
  by (simp add: load16_def peek_def)

lemma UTF16_ADVANCE_ok:
  assumes "2 * p + s \<le> 2 * length buf"
  shows "adv16_ok p s (UTF16_ADVANCE buf p s)"
  unfolding UTF16_ADVANCE_def Let_def
  by (rule adv16_ok_if adv16_ok_fail
      | (rule adv16_ok_load0 adv16_ok_load, (simp; fail), rule assms)
      | (rule adv16_ok_step1 adv16_ok_step2; simp; fail))+

text \<open>The first loop of the backward engines with an empty needle.\<close>

lemma utf8_skip_Suc:
  "utf8_skip buf (Suc n) p = Some q \<Longrightarrow> p \<le> length buf \<Longrightarrow>
   \<exists>p' cp. UTF8_ADVANCE buf p (length buf - p) = Inr (p', length buf - p', cp) \<and> cp \<noteq> -1
     \<and> p < p' \<and> p' \<le> length buf \<and> utf8_skip buf n p' = Some q"
proof -
  assume a: "utf8_skip buf (Suc n) p = Some q" and b: "p \<le> length buf"
  from UTF8_ADVANCE_ok[of p "length buf - p" buf] b
  obtain p' s' cp where r: "UTF8_ADVANCE buf p (length buf - p) = Inr (p', s', cp)"
    and c: "cp = -1 \<and> p' = p \<and> s' = length buf - p
            \<or> 0 \<le> cp \<and> (\<exists>k. 1 \<le> k \<and> k \<le> 4 \<and> k \<le> length buf - p \<and> p' = p + k
                           \<and> s' = length buf - p - k)"
    by (auto simp: adv_ok_def)
  from a r have ne: "cp \<noteq> -1" and sk: "utf8_skip buf n p' = Some q"
    by (auto split: if_splits)
  with c obtain k where "1 \<le> k" "k \<le> length buf - p" "p' = p + k" "s' = length buf - p - k"
    by auto
  with r ne sk b show ?thesis by auto
qed

lemma rinstr_utf8_seek_empty_wellformed:
  "utf8_skip buf n h = Some (length buf) \<Longrightarrow> h \<le> length buf \<Longrightarrow> found + int n \<le> start \<Longrightarrow>
   rinstr_utf8_seek buf 0 start h (length buf - h) found
     = Some (Inr (Reached (length buf, 0, found + int n)))"
proof (induction n arbitrary: h found)
  case 0
  then show ?case by (subst rinstr_utf8_seek.simps) simp
next
  case (Suc n)
  from utf8_skip_Suc[OF Suc.prems(1,2)] obtain p' cp where
    r: "UTF8_ADVANCE buf h (length buf - h) = Inr (p', length buf - p', cp)" "cp \<noteq> -1"
      "h < p'" "p' \<le> length buf" "utf8_skip buf n p' = Some (length buf)"
    by blast
  have "rinstr_utf8_seek buf 0 start h (length buf - h) found
          = rinstr_utf8_seek buf 0 start p' (length buf - p') (found + 1)"
    using r Suc.prems(3) by (subst rinstr_utf8_seek.simps) simp
  also have "\<dots> = Some (Inr (Reached (length buf, 0, found + 1 + int n)))"
    by (rule Suc.IH[OF r(5) r(4)]) (use Suc.prems(3) in simp)
  finally show ?case by simp
qed

lemma utf8_skip_1_None:
  "utf8_skip buf 1 e = None \<Longrightarrow> e \<le> length buf \<Longrightarrow>
   UTF8_ADVANCE buf e (length buf - e) = Inr (e, length buf - e, -1)"
proof -
  assume a: "utf8_skip buf 1 e = None" and b: "e \<le> length buf"
  from UTF8_ADVANCE_ok[of e "length buf - e" buf] b
  obtain p' s' cp where r: "UTF8_ADVANCE buf e (length buf - e) = Inr (p', s', cp)"
    and c: "cp = -1 \<and> p' = e \<and> s' = length buf - e \<or> 0 \<le> cp"
    by (auto simp: adv_ok_def)
  from a r have "cp = -1" by (auto split: if_splits)
  with c r show ?thesis by auto
qed

lemma rinstr_utf8_seek_empty_malformed:
  "utf8_skip buf k h = Some e \<Longrightarrow> e < length buf \<Longrightarrow> utf8_skip buf 1 e = None \<Longrightarrow>
   h \<le> length buf \<Longrightarrow> found + int k < start \<Longrightarrow>
   rinstr_utf8_seek buf 0 start h (length buf - h) found = Some (Inr (Returned (-1)))"
proof (induction k arbitrary: h found)
  case 0
  then have "h = e" by simp
  with 0 utf8_skip_1_None[of buf e] show ?case
    by (subst rinstr_utf8_seek.simps) simp
next
  case (Suc k)
  from utf8_skip_Suc[OF Suc.prems(1,4)] obtain p' cp where
    r: "UTF8_ADVANCE buf h (length buf - h) = Inr (p', length buf - p', cp)" "cp \<noteq> -1"
      "h < p'" "p' \<le> length buf" "utf8_skip buf k p' = Some e"
    by blast
  have "rinstr_utf8_seek buf 0 start h (length buf - h) found
          = rinstr_utf8_seek buf 0 start p' (length buf - p') (found + 1)"
    using r Suc.prems(4,5) by (subst rinstr_utf8_seek.simps) simp
  also have "\<dots> = Some (Inr (Returned (-1)))"
    by (rule Suc.IH[OF r(5) Suc.prems(2,3) r(4)]) (use Suc.prems(5) in simp)
  finally show ?case .
qed


lemma utf16_skip_Suc:
  "utf16_skip buf (Suc n) p = Some q \<Longrightarrow> p \<le> length buf \<Longrightarrow>
   \<exists>p' cp. UTF16_ADVANCE buf p (2 * (length buf - p)) = Inr (p', 2 * (length buf - p'), cp)
     \<and> cp \<noteq> -1 \<and> p < p' \<and> p' \<le> length buf \<and> utf16_skip buf n p' = Some q"
proof -
  assume a: "utf16_skip buf (Suc n) p = Some q" and b: "p \<le> length buf"
  from b have pre: "2 * p + 2 * (length buf - p) \<le> 2 * length buf" by simp
  from UTF16_ADVANCE_ok[OF pre]
  obtain p' s' cp where r: "UTF16_ADVANCE buf p (2 * (length buf - p)) = Inr (p', s', cp)"
    and c: "cp = -1 \<and> p' = p \<and> s' = 2 * (length buf - p)
            \<or> 0 \<le> cp \<and> (\<exists>k. 1 \<le> k \<and> k \<le> 2 \<and> 2 * k \<le> 2 * (length buf - p) \<and> p' = p + k
                           \<and> s' = 2 * (length buf - p) - 2 * k)"
    by (auto simp: adv16_ok_def)
  from a r have ne: "cp \<noteq> -1" and sk: "utf16_skip buf n p' = Some q"
    by (auto split: if_splits)
  with c obtain k where k: "1 \<le> k" "2 * k \<le> 2 * (length buf - p)" "p' = p + k"
      "s' = 2 * (length buf - p) - 2 * k"
    by auto
  then have "s' = 2 * (length buf - p')" by simp
  with k r ne sk b show ?thesis by auto
qed

lemma rinstr_utf16_seek_empty_wellformed:
  "utf16_skip buf n h = Some (length buf) \<Longrightarrow> h \<le> length buf \<Longrightarrow> found + int n \<le> start \<Longrightarrow>
   rinstr_utf16_seek buf 0 start h (2 * (length buf - h)) found
     = Some (Inr (Reached (length buf, 0, found + int n)))"
proof (induction n arbitrary: h found)
  case 0
  then show ?case by (subst rinstr_utf16_seek.simps) simp
next
  case (Suc n)
  from utf16_skip_Suc[OF Suc.prems(1,2)] obtain p' cp where
    r: "UTF16_ADVANCE buf h (2 * (length buf - h)) = Inr (p', 2 * (length buf - p'), cp)"
      "cp \<noteq> -1" "h < p'" "p' \<le> length buf" "utf16_skip buf n p' = Some (length buf)"
    by blast
  have "rinstr_utf16_seek buf 0 start h (2 * (length buf - h)) found
          = rinstr_utf16_seek buf 0 start p' (2 * (length buf - p')) (found + 1)"
    using r Suc.prems(3) by (subst rinstr_utf16_seek.simps) simp
  also have "\<dots> = Some (Inr (Reached (length buf, 0, found + 1 + int n)))"
    by (rule Suc.IH[OF r(5) r(4)]) (use Suc.prems(3) in simp)
  finally show ?case by simp
qed

lemma utf16_skip_1_None:
  "utf16_skip buf 1 e = None \<Longrightarrow> e \<le> length buf \<Longrightarrow>
   UTF16_ADVANCE buf e (2 * (length buf - e)) = Inr (e, 2 * (length buf - e), -1)"
proof -
  assume a: "utf16_skip buf 1 e = None" and b: "e \<le> length buf"
  from b have pre: "2 * e + 2 * (length buf - e) \<le> 2 * length buf" by simp
  from UTF16_ADVANCE_ok[OF pre]
  obtain p' s' cp where r: "UTF16_ADVANCE buf e (2 * (length buf - e)) = Inr (p', s', cp)"
    and c: "cp = -1 \<and> p' = e \<and> s' = 2 * (length buf - e) \<or> 0 \<le> cp"
    by (auto simp: adv16_ok_def)
  from a r have "cp = -1" by (auto split: if_splits)
  with c r show ?thesis by auto
qed

lemma rinstr_utf16_seek_empty_malformed:
  "utf16_skip buf k h = Some e \<Longrightarrow> e < length buf \<Longrightarrow> utf16_skip buf 1 e = None \<Longrightarrow>
   h \<le> length buf \<Longrightarrow> found + int k < start \<Longrightarrow>
   rinstr_utf16_seek buf 0 start h (2 * (length buf - h)) found = Some (Inr (Returned (-1)))"
proof (induction k arbitrary: h found)
  case 0
  then have "h = e" by simp
  with 0 utf16_skip_1_None[of buf e] show ?case
    by (subst rinstr_utf16_seek.simps) simp
next
  case (Suc k)
  from utf16_skip_Suc[OF Suc.prems(1,4)] obtain p' cp where
    r: "UTF16_ADVANCE buf h (2 * (length buf - h)) = Inr (p', 2 * (length buf - p'), cp)"
      "cp \<noteq> -1" "h < p'" "p' \<le> length buf" "utf16_skip buf k p' = Some e"
    by blast
  have "rinstr_utf16_seek buf 0 start h (2 * (length buf - h)) found
          = rinstr_utf16_seek buf 0 start p' (2 * (length buf - p')) (found + 1)"
    using r Suc.prems(4,5) by (subst rinstr_utf16_seek.simps) simp
  also have "\<dots> = Some (Inr (Returned (-1)))"
    by (rule Suc.IH[OF r(5) Suc.prems(2,3) r(4)]) (use Suc.prems(5) in simp)
  finally show ?case .
qed

lemma utf8_skip_le: "utf8_skip buf n p = Some q \<Longrightarrow> p \<le> length buf \<Longrightarrow> p + n \<le> q \<and> q \<le> length buf"
proof (induction n arbitrary: p)
  case 0
  then show ?case by simp
next
  case (Suc n)
  from utf8_skip_Suc[OF Suc.prems] obtain p' where
    "p < p'" "p' \<le> length buf" "utf8_skip buf n p' = Some q" by blast
  with Suc.IH[of p'] show ?case by simp
qed

lemma utf16_skip_le: "utf16_skip buf n p = Some q \<Longrightarrow> p \<le> length buf \<Longrightarrow> p + n \<le> q \<and> q \<le> length buf"
proof (induction n arbitrary: p)
  case 0
  then show ?case by simp
next
  case (Suc n)
  from utf16_skip_Suc[OF Suc.prems] obtain p' where
    "p < p'" "p' \<le> length buf" "utf16_skip buf n p' = Some q" by blast
  with Suc.IH[of p'] show ?case by simp
qed

text \<open>
  C8 (as amended). With an empty needle and start 1 the three forward engines
  return 1 for every haystack. With an empty needle and the default start
  \<open>INT64_MAX\<close>, \<open>rinstr_blob\<close> returns the number of bytes plus 1;
  \<open>rinstr_utf8\<close> and \<open>rinstr_utf16\<close> return the number of codepoints plus 1
  when the haystack is well formed (\<open>n\<close> codepoints decode from its start and
  end at its end), and \<open>-1\<close> when it is not (\<open>k\<close> codepoints decode up to an
  offset \<open>e\<close> inside the haystack at which the next one does not). Haystacks
  are of a length that \<open>sqlite3_value_bytes\<close> can report.
\<close>

theorem empty_needle_positions:
  assumes len: "length hay < 2 ^ 31" and len16: "length hay16 < 2 ^ 30"
  shows "instr_blob hay [] 1 = Some (Inr 1)
       \<and> instr_utf8 hay [] 1 = Some (Inr 1)
       \<and> instr_utf16 en hay16 [] 1 = Some (Inr 1)
       \<and> rinstr_blob hay [] INT64_MAX = Some (Inr (int (length hay) + 1))
       \<and> (utf8_skip hay n 0 = Some (length hay) \<longrightarrow>
            rinstr_utf8 hay [] INT64_MAX = Some (Inr (int n + 1)))
       \<and> (utf16_skip hay16 n16 0 = Some (length hay16) \<longrightarrow>
            rinstr_utf16 en hay16 [] INT64_MAX = Some (Inr (int n16 + 1)))
       \<and> (utf8_skip hay k 0 = Some e \<and> e < length hay \<and> utf8_skip hay 1 e = None \<longrightarrow>
            rinstr_utf8 hay [] INT64_MAX = Some (Inr (-1)))
       \<and> (utf16_skip hay16 k16 0 = Some e16 \<and> e16 < length hay16 \<and> utf16_skip hay16 1 e16 = None \<longrightarrow>
            rinstr_utf16 en hay16 [] INT64_MAX = Some (Inr (-1)))"
proof (intro conjI impI)
  show "instr_blob hay [] 1 = Some (Inr 1)"
    by (simp add: instr_blob_def)
  show "instr_utf8 hay [] 1 = Some (Inr 1)"
    by (simp add: instr_utf8_def instr_utf8_seek.simps)
  show "instr_utf16 en hay16 [] 1 = Some (Inr 1)"
    by (simp add: instr_utf16_def instr_utf16_seek.simps)
  have "int (length hay) < 2 ^ 31" using len by simp
  then show "rinstr_blob hay [] INT64_MAX = Some (Inr (int (length hay) + 1))"
    by (simp add: rinstr_blob_def INT64_MAX_def)
next
  assume a: "utf8_skip hay n 0 = Some (length hay)"
  from utf8_skip_le[OF a] len have "int n < 2 ^ 31" by simp
  then have "1 + int n \<le> INT64_MAX" by (simp add: INT64_MAX_def)
  from rinstr_utf8_seek_empty_wellformed[OF a _ this]
  show "rinstr_utf8 hay [] INT64_MAX = Some (Inr (int n + 1))"
    by (simp add: rinstr_utf8_def INT64_MAX_def)
next
  assume a: "utf16_skip hay16 n16 0 = Some (length hay16)"
  from utf16_skip_le[OF a] len16 have "int n16 < 2 ^ 30" by simp
  then have "1 + int n16 \<le> INT64_MAX" by (simp add: INT64_MAX_def)
  from rinstr_utf16_seek_empty_wellformed[OF a _ this]
  show "rinstr_utf16 en hay16 [] INT64_MAX = Some (Inr (int n16 + 1))"
    by (simp add: rinstr_utf16_def INT64_MAX_def)
next
  assume a: "utf8_skip hay k 0 = Some e \<and> e < length hay \<and> utf8_skip hay 1 e = None"
  then have s: "utf8_skip hay k 0 = Some e" and e: "e < length hay" and f: "utf8_skip hay 1 e = None"
    by simp_all
  from utf8_skip_le[OF s] e len have "int k < 2 ^ 31" by simp
  then have "1 + int k < INT64_MAX" by (simp add: INT64_MAX_def)
  from rinstr_utf8_seek_empty_malformed[OF s e f _ this]
  show "rinstr_utf8 hay [] INT64_MAX = Some (Inr (-1))"
    by (simp add: rinstr_utf8_def INT64_MAX_def)
next
  assume a: "utf16_skip hay16 k16 0 = Some e16 \<and> e16 < length hay16 \<and> utf16_skip hay16 1 e16 = None"
  then have s: "utf16_skip hay16 k16 0 = Some e16" and e: "e16 < length hay16"
    and f: "utf16_skip hay16 1 e16 = None"
    by simp_all
  from utf16_skip_le[OF s] e len16 have "int k16 < 2 ^ 30" by simp
  then have "1 + int k16 < INT64_MAX" by (simp add: INT64_MAX_def)
  from rinstr_utf16_seek_empty_malformed[OF s e f _ this]
  show "rinstr_utf16 en hay16 [] INT64_MAX = Some (Inr (-1))"
    by (simp add: rinstr_utf16_def INT64_MAX_def)
qed


text \<open>Instances: \<open>a, U+00E9\<close> and \<open>b, U+1F600\<close> (well formed), \<open>a, FF\<close> and
  \<open>a, DC00\<close> (malformed).\<close>

theorem empty_needle_positions_witness:
  "instr_blob [0x61,0xC3,0xA9] [] 1 = Some (Inr 1)
   \<and> instr_utf8 [0x61,0xC3,0xA9] [] 1 = Some (Inr 1)
   \<and> instr_utf16 LittleEndian [0x62,0xD83D,0xDE00] [] 1 = Some (Inr 1)
   \<and> rinstr_blob [0x61,0xC3,0xA9] [] INT64_MAX = Some (Inr 4)
   \<and> utf8_skip [0x61,0xC3,0xA9] 2 0 = Some 3
   \<and> rinstr_utf8 [0x61,0xC3,0xA9] [] INT64_MAX = Some (Inr 3)
   \<and> utf16_skip [0x62,0xD83D,0xDE00] 2 0 = Some 3
   \<and> rinstr_utf16 LittleEndian [0x62,0xD83D,0xDE00] [] INT64_MAX = Some (Inr 3)
   \<and> utf8_skip [0x61,0xFF] 1 0 = Some 1 \<and> utf8_skip [0x61,0xFF] 1 1 = None
   \<and> rinstr_utf8 [0x61,0xFF] [] INT64_MAX = Some (Inr (-1))
   \<and> utf16_skip [0x61,0xDC00] 1 0 = Some 1 \<and> utf16_skip [0x61,0xDC00] 1 1 = None
   \<and> rinstr_utf16 LittleEndian [0x61,0xDC00] [] INT64_MAX = Some (Inr (-1))"
proof -
  have a: "utf8_skip [0x61,0xC3,0xA9] 2 0 = Some 3" by code_simp
  have b: "utf16_skip [0x62,0xD83D,0xDE00] 2 0 = Some 3" by code_simp
  have c: "utf8_skip [0x61,0xFF] 1 0 = Some 1" "utf8_skip [0x61,0xFF] 1 1 = None" by code_simp+
  have d: "utf16_skip [0x61,0xDC00] 1 0 = Some 1" "utf16_skip [0x61,0xDC00] 1 1 = None"
    by code_simp+
  from empty_needle_positions[of "[0x61,0xC3,0xA9]" "[0x62,0xD83D,0xDE00]" LittleEndian 2 2 0 0 0 0]
    a b
  have A: "instr_blob [0x61,0xC3,0xA9] [] 1 = Some (Inr 1)
     \<and> instr_utf8 [0x61,0xC3,0xA9] [] 1 = Some (Inr 1)
     \<and> instr_utf16 LittleEndian [0x62,0xD83D,0xDE00] [] 1 = Some (Inr 1)
     \<and> rinstr_blob [0x61,0xC3,0xA9] [] INT64_MAX = Some (Inr 4)
     \<and> rinstr_utf8 [0x61,0xC3,0xA9] [] INT64_MAX = Some (Inr 3)
     \<and> rinstr_utf16 LittleEndian [0x62,0xD83D,0xDE00] [] INT64_MAX = Some (Inr 3)"
    by simp
  from empty_needle_positions[of "[0x61,0xFF]" "[0x61,0xDC00]" LittleEndian 0 0 1 1 1 1] c d
  have B: "rinstr_utf8 [0x61,0xFF] [] INT64_MAX = Some (Inr (-1))
     \<and> rinstr_utf16 LittleEndian [0x61,0xDC00] [] INT64_MAX = Some (Inr (-1))"
    by simp
  from A B a b c d show ?thesis by simp
qed

text \<open>C8 as stated does not hold: on the one-byte haystack \<open>FF\<close> the backward
  UTF-8 search with an empty needle returns \<open>-1\<close>, and on the two bytes of
  U+00E9 it returns 2, not the length in bytes plus 1.\<close>

theorem empty_needle_backward_not_units:
  "rinstr_utf8 [0xFF] [] INT64_MAX = Some (Inr (-1))
   \<and> rinstr_utf8 [0xFF] [] INT64_MAX \<noteq> Some (Inr (int (length [0xFF :: byte]) + 1))
   \<and> rinstr_utf8 [0xC3,0xA9] [] INT64_MAX = Some (Inr 2)
   \<and> rinstr_utf8 [0xC3,0xA9] [] INT64_MAX \<noteq> Some (Inr (int (length [0xC3,0xA9 :: byte]) + 1))"
  by code_simp

section \<open>Forward text engines on malformed haystacks\<close>

lemma mask_skip_1_le:
  assumes "v \<le> L" "even L"
  shows "mask_skip 1 v \<le> L"
proof -
  let ?r = "(int v + 1) AND NOT 1"
  have r0: "0 \<le> ?r" by simp
  have r1: "?r \<le> int v + 1" by (rule AND_upper1) simp
  have ev: "even ?r" by (simp add: even_and_iff)
  from assms(2) have "odd (int L + 1)" by simp
  with ev have "?r \<noteq> int L + 1" by metis
  with r1 assms(1) have "?r \<le> int L" by linarith
  with r0 show ?thesis by (simp add: mask_skip_def)
qed

lemma fbmh_setup_1_le:
  assumes "2 \<le> length needle" "even (length needle)"
  shows "fbmh_setup needle 1 c \<le> length needle"
proof -
  have "fold (\<lambda>ix sk. sk(needle ! ix := length needle - 1 - ix)) [0..<length needle - 1]
          (\<lambda>c. length needle) c \<le> length needle"
    using fbmh_fold_bounds[of "length needle - 1" "length needle - 1" "length needle" needle c] assms
    by simp
  from mask_skip_1_le[OF this assms(2)] show ?thesis
    by (simp add: fbmh_setup_def Let_def)
qed

lemma length_byte_view: "length (byte_view en buf) = 2 * length buf"
  by (induction buf) (auto simp: byte_view_def unit_bytes_def split: endianness.splits)


text \<open>Forward UTF-8 engine on a haystack whose decoding stops at offset \<open>e\<close>.\<close>

lemma instr_utf8_seek_towards:
  assumes e: "e < length buf" and bad: "utf8_skip buf 1 e = None"
  shows "utf8_skip buf j p = Some e \<Longrightarrow> p \<le> length buf \<Longrightarrow>
         m < length buf - e \<or> m = 1 \<and> start \<le> found + int j \<Longrightarrow>
         instr_utf8_seek buf m start p (length buf - p) found = Some (Inr (Returned (-1)))
         \<or> (\<exists>p0 f0 j0. instr_utf8_seek buf m start p (length buf - p) found
                            = Some (Inr (Reached (p0, length buf - p0, f0)))
                \<and> \<not> f0 < start \<and> p0 \<le> length buf \<and> utf8_skip buf j0 p0 = Some e)"
proof (induction j arbitrary: p found)
  case 0
  then have pe: "p = e" by simp
  show ?case
  proof (cases "found < start")
    case True
    with 0(3) have "m < length buf - e" by auto
    with True pe e utf8_skip_1_None[OF bad] show ?thesis
      by (subst instr_utf8_seek.simps) simp
  next
    case False
    have "instr_utf8_seek buf m start p (length buf - p) found
            = Some (Inr (Reached (p, length buf - p, found)))"
      using False by (subst instr_utf8_seek.simps) simp
    moreover have "utf8_skip buf 0 p = Some e" using pe by simp
    ultimately show ?thesis using False 0(2) by blast
  qed
next
  case (Suc j)
  from utf8_skip_Suc[OF Suc.prems(1,2)] obtain p' cp where
    r: "UTF8_ADVANCE buf p (length buf - p) = Inr (p', length buf - p', cp)" "cp \<noteq> -1"
      "p < p'" "p' \<le> length buf" "utf8_skip buf j p' = Some e"
    by blast
  from utf8_skip_le[OF r(5) r(4)] have p'e: "p' \<le> e" by simp
  show ?case
  proof (cases "found < start")
    case True
    have big: "m < length buf - p"
      using Suc.prems(3) p'e r(3) e by auto
    have step: "instr_utf8_seek buf m start p (length buf - p) found
            = instr_utf8_seek buf m start p' (length buf - p') (found + 1)"
      using r True big by (subst instr_utf8_seek.simps) simp
    have "m < length buf - e \<or> m = 1 \<and> start \<le> found + 1 + int j"
      using Suc.prems(3) by auto
    from Suc.IH[OF r(5) r(4) this] show ?thesis
      unfolding step .
  next
    case False
    have "instr_utf8_seek buf m start p (length buf - p) found
            = Some (Inr (Reached (p, length buf - p, found)))"
      using False by (subst instr_utf8_seek.simps) simp
    with False Suc.prems show ?thesis by blast
  qed
qed

lemma instr_utf8_probe_no_bail:
  assumes no: "\<not> occurs_at buf needle p"
    and fit: "p + 2 * length needle \<le> length buf" and m: "1 \<le> length needle"
    and sk: "skips (buf ! (p + (length needle - 1))) \<le> length needle"
  shows "instr_utf8_probe buf needle skips p (length buf - p) found
           = Inr (Reached (p + skips (buf ! (p + (length needle - 1)))))"
proof -
  have a: "memcmp_eq buf p needle = Inr False"
    using no fit by (simp add: memcmp_eq_occurs)
  have b: "peek buf (p + (length needle - 1)) = Inr (buf ! (p + (length needle - 1)))"
    using fit m by (simp add: peek_def)
  have c: "\<not> length buf - p - skips (buf ! (p + (length needle - 1))) < length needle"
    using fit sk by linarith
  show ?thesis
    using a b c by (simp add: instr_utf8_probe_def)
qed

lemma instr_utf8_horspool_malformed:
  assumes e: "e < length buf" and bad: "utf8_skip buf 1 e = None"
    and no: "\<forall>q. \<not> occurs_at buf needle q"
    and fit: "e + 2 * length needle \<le> length buf" and m: "1 \<le> length needle"
    and sk: "\<forall>c. skips c \<le> length needle"
  shows "utf8_skip buf j p = Some e \<Longrightarrow> p \<le> length buf \<Longrightarrow>
         instr_utf8_horspool buf needle skips p (length buf - p) next found = Some (Inr (-1))"
proof (induction j arbitrary: p "next" found)
  case 0
  then have pe: "p = e" by simp
  have pr: "instr_utf8_probe buf needle skips p (length buf - p) found
              = Inr (Reached (p + skips (buf ! (p + (length needle - 1)))))"
    by (rule instr_utf8_probe_no_bail) (use no fit m sk pe in auto)
  show ?case
    using pe fit m pr utf8_skip_1_None[OF bad]
    by (subst instr_utf8_horspool.simps) simp
next
  case (Suc j)
  from utf8_skip_Suc[OF Suc.prems(1,2)] obtain p' cp where
    r: "UTF8_ADVANCE buf p (length buf - p) = Inr (p', length buf - p', cp)" "cp \<noteq> -1"
      "p < p'" "p' \<le> length buf" "utf8_skip buf j p' = Some e"
    by blast
  from utf8_skip_le[OF r(5) r(4)] have p'e: "p' \<le> e" by simp
  have pfit: "p + 2 * length needle \<le> length buf" using p'e r(3) fit by linarith
  have pr: "instr_utf8_probe buf needle skips p (length buf - p) found
              = Inr (Reached (p + skips (buf ! (p + (length needle - 1)))))"
    by (rule instr_utf8_probe_no_bail) (use no pfit m sk in auto)
  have "\<exists>n'. instr_utf8_horspool buf needle skips p (length buf - p) next found
            = instr_utf8_horspool buf needle skips p' (length buf - p') n' (found + 1)"
    using r pfit m pr
    by (subst instr_utf8_horspool.simps) (auto simp: Let_def)
  then obtain n' where "instr_utf8_horspool buf needle skips p (length buf - p) next found
            = instr_utf8_horspool buf needle skips p' (length buf - p') n' (found + 1)" ..
  with Suc.IH[OF r(5) r(4)] show ?case by simp
qed

lemma instr_utf8_linear_malformed:
  assumes e: "e < length buf" and bad: "utf8_skip buf 1 e = None"
    and no: "\<forall>q. \<not> occurs_at buf [c] q"
  shows "utf8_skip buf j p = Some e \<Longrightarrow> p \<le> length buf \<Longrightarrow>
         instr_utf8_linear buf c p (length buf - p) found = Some (Inr (-1))"
proof (induction j arbitrary: p found)
  case 0
  then have pe: "p = e" by simp
  from no e have "buf ! e \<noteq> c" by (simp add: occurs_at_single)
  with pe e utf8_skip_1_None[OF bad] show ?case
    by (subst instr_utf8_linear.simps) (simp add: peek_def)
next
  case (Suc j)
  from utf8_skip_Suc[OF Suc.prems(1,2)] obtain p' cp where
    r: "UTF8_ADVANCE buf p (length buf - p) = Inr (p', length buf - p', cp)" "cp \<noteq> -1"
      "p < p'" "p' \<le> length buf" "utf8_skip buf j p' = Some e"
    by blast
  from no r have ne: "buf ! p \<noteq> c" by (simp add: occurs_at_single)
  have "instr_utf8_linear buf c p (length buf - p) found
          = instr_utf8_linear buf c p' (length buf - p') (found + 1)"
    using r ne by (subst instr_utf8_linear.simps) (simp add: peek_def)
  with Suc.IH[OF r(5) r(4)] show ?case by simp
qed

lemma instr_utf8_malformed:
  assumes ne: "needle \<noteq> []" and no: "\<forall>p. \<not> occurs_at hay needle p"
    and k: "utf8_skip hay k 0 = Some e" and e: "e < length hay"
    and bad: "utf8_skip hay 1 e = None"
    and far: "length needle = 1 \<and> start \<le> int k + 1 \<or> e + 2 * length needle \<le> length hay"
  shows "instr_utf8 hay needle start = Some (Inr (-1))"
proof -
  let ?m = "length needle"
  from ne have m: "1 \<le> ?m" by (cases needle) auto
  from far e m have fits: "\<not> ?m > length hay" by auto
  from far e m have pre: "?m < length hay - e \<or> ?m = 1 \<and> start \<le> 1 + int k" by auto
  from instr_utf8_seek_towards[OF e bad k _ pre]
  consider "instr_utf8_seek hay ?m start 0 (length hay) 1 = Some (Inr (Returned (-1)))"
    | p0 f0 j0 where "instr_utf8_seek hay ?m start 0 (length hay) 1
                        = Some (Inr (Reached (p0, length hay - p0, f0)))"
        "\<not> f0 < start" "p0 \<le> length hay" "utf8_skip hay j0 p0 = Some e"
    by auto
  then show ?thesis
  proof cases
    case 1
    with fits show ?thesis by (simp add: instr_utf8_def)
  next
    case 2
    show ?thesis
    proof (cases "?m > 1")
      case True
      with far have fit: "e + 2 * ?m \<le> length hay" by auto
      from True have "2 \<le> ?m" by simp
      then have sk: "\<forall>c. fbmh_setup needle 0 c \<le> ?m"
        using fbmh_setup_bounds(2) by blast
      from instr_utf8_horspool_malformed[OF e bad no fit m sk 2(4) 2(3)]
      have "instr_utf8_horspool hay needle (fbmh_setup needle 0) p0 (length hay - p0) p0 f0
              = Some (Inr (-1))" .
      with 2 fits True m ne show ?thesis by (simp add: instr_utf8_def)
    next
      case False
      with m have l: "?m = 1" by simp
      then have n1: "needle = [needle ! 0]" by (cases needle) auto
      from no n1 have no1: "\<forall>q. \<not> occurs_at hay [needle ! 0] q" by simp
      from instr_utf8_linear_malformed[OF e bad no1 2(4) 2(3)]
      have "instr_utf8_linear hay (needle ! 0) p0 (length hay - p0) f0 = Some (Inr (-1))" .
      with 2 fits l ne show ?thesis by (simp add: instr_utf8_def)
    qed
  qed
qed


text \<open>The same for the forward UTF-16 engine; offsets count units, sizes bytes.\<close>

lemma instr_utf16_seek_towards:
  assumes e: "e < length buf" and bad: "utf16_skip buf 1 e = None"
  shows "utf16_skip buf j p = Some e \<Longrightarrow> p \<le> length buf \<Longrightarrow>
         m < 2 * (length buf - e) \<or> m = 2 \<and> start \<le> found + int j \<Longrightarrow>
         instr_utf16_seek buf m start p (2 * (length buf - p)) found = Some (Inr (Returned (-1)))
         \<or> (\<exists>p0 f0 j0. instr_utf16_seek buf m start p (2 * (length buf - p)) found
                            = Some (Inr (Reached (p0, 2 * (length buf - p0), f0)))
                \<and> \<not> f0 < start \<and> p0 \<le> length buf \<and> utf16_skip buf j0 p0 = Some e)"
proof (induction j arbitrary: p found)
  case 0
  then have pe: "p = e" by simp
  show ?case
  proof (cases "found < start")
    case True
    with 0(3) have "m < 2 * (length buf - e)" by auto
    with True pe e utf16_skip_1_None[OF bad] show ?thesis
      by (subst instr_utf16_seek.simps) simp
  next
    case False
    have "instr_utf16_seek buf m start p (2 * (length buf - p)) found
            = Some (Inr (Reached (p, 2 * (length buf - p), found)))"
      using False by (subst instr_utf16_seek.simps) simp
    moreover have "utf16_skip buf 0 p = Some e" using pe by simp
    ultimately show ?thesis using False 0(2) by blast
  qed
next
  case (Suc j)
  from utf16_skip_Suc[OF Suc.prems(1,2)] obtain p' cp where
    r: "UTF16_ADVANCE buf p (2 * (length buf - p)) = Inr (p', 2 * (length buf - p'), cp)"
      "cp \<noteq> -1" "p < p'" "p' \<le> length buf" "utf16_skip buf j p' = Some e"
    by blast
  from utf16_skip_le[OF r(5) r(4)] have p'e: "p' \<le> e" by simp
  show ?case
  proof (cases "found < start")
    case True
    have big: "m < 2 * (length buf - p)"
      using Suc.prems(3) p'e r(3) e by auto
    have step: "instr_utf16_seek buf m start p (2 * (length buf - p)) found
            = instr_utf16_seek buf m start p' (2 * (length buf - p')) (found + 1)"
      using r True big by (subst instr_utf16_seek.simps) simp
    have "m < 2 * (length buf - e) \<or> m = 2 \<and> start \<le> found + 1 + int j"
      using Suc.prems(3) by auto
    from Suc.IH[OF r(5) r(4) this] show ?thesis
      unfolding step .
  next
    case False
    have "instr_utf16_seek buf m start p (2 * (length buf - p)) found
            = Some (Inr (Reached (p, 2 * (length buf - p), found)))"
      using False by (subst instr_utf16_seek.simps) simp
    with False Suc.prems show ?thesis by blast
  qed
qed

lemma instr_utf16_probe_no_bail:
  assumes no: "\<not> occurs_at buf needle p"
    and fit: "p + 2 * length needle \<le> length buf" and m: "1 \<le> length needle"
    and sk: "\<forall>c. skips c \<le> 2 * length needle"
  shows "\<exists>n'. instr_utf16_probe en buf needle skips p (2 * (length buf - p)) found
           = Inr (Reached n')"
proof -
  let ?i = "2 * p + (2 * length needle - 1)"
  have a: "memcmp_eq buf p needle = Inr False"
    using no fit by (simp add: memcmp_eq_occurs)
  have b: "peek (byte_view en buf) ?i = Inr (byte_view en buf ! ?i)"
    using fit m by (simp add: peek_def length_byte_view)
  have "skips (byte_view en buf ! ?i) \<le> 2 * length needle" using sk by simp
  then have c: "\<not> 2 * (length buf - p) - skips (byte_view en buf ! ?i) < 2 * length needle"
    using fit by linarith
  show ?thesis
    using a b c by (simp add: instr_utf16_probe_def Let_def)
qed

lemma instr_utf16_horspool_malformed:
  assumes e: "e < length buf" and bad: "utf16_skip buf 1 e = None"
    and no: "\<forall>q. \<not> occurs_at buf needle q"
    and fit: "e + 2 * length needle \<le> length buf" and m: "1 \<le> length needle"
    and sk: "\<forall>c. skips c \<le> 2 * length needle"
  shows "utf16_skip buf j p = Some e \<Longrightarrow> p \<le> length buf \<Longrightarrow>
         instr_utf16_horspool en buf needle skips p (2 * (length buf - p)) next found
           = Some (Inr (-1))"
proof (induction j arbitrary: p "next" found)
  case 0
  then have pe: "p = e" by simp
  from instr_utf16_probe_no_bail[of buf needle p skips en found] no fit m sk pe
  obtain n' where pr: "instr_utf16_probe en buf needle skips p (2 * (length buf - p)) found
           = Inr (Reached n')" by auto
  show ?case
    using pe fit m pr utf16_skip_1_None[OF bad]
    by (subst instr_utf16_horspool.simps) simp
next
  case (Suc j)
  from utf16_skip_Suc[OF Suc.prems(1,2)] obtain p' cp where
    r: "UTF16_ADVANCE buf p (2 * (length buf - p)) = Inr (p', 2 * (length buf - p'), cp)"
      "cp \<noteq> -1" "p < p'" "p' \<le> length buf" "utf16_skip buf j p' = Some e"
    by blast
  from utf16_skip_le[OF r(5) r(4)] have p'e: "p' \<le> e" by simp
  have pfit: "p + 2 * length needle \<le> length buf" using p'e r(3) fit by linarith
  from instr_utf16_probe_no_bail[of buf needle p skips en found] no pfit m sk
  obtain n' where pr: "instr_utf16_probe en buf needle skips p (2 * (length buf - p)) found
           = Inr (Reached n')" by auto
  have "\<exists>n''. instr_utf16_horspool en buf needle skips p (2 * (length buf - p)) next found
            = instr_utf16_horspool en buf needle skips p' (2 * (length buf - p')) n'' (found + 1)"
    using r pfit m pr
    by (subst instr_utf16_horspool.simps) (auto simp: Let_def)
  then obtain n'' where
    "instr_utf16_horspool en buf needle skips p (2 * (length buf - p)) next found
       = instr_utf16_horspool en buf needle skips p' (2 * (length buf - p')) n'' (found + 1)" ..
  with Suc.IH[OF r(5) r(4)] show ?case by simp
qed

lemma instr_utf16_linear_malformed:
  assumes e: "e < length buf" and bad: "utf16_skip buf 1 e = None"
    and no: "\<forall>q. \<not> occurs_at buf [c] q"
  shows "utf16_skip buf j p = Some e \<Longrightarrow> p \<le> length buf \<Longrightarrow>
         instr_utf16_linear buf c p (2 * (length buf - p)) found = Some (Inr (-1))"
proof (induction j arbitrary: p found)
  case 0
  then have pe: "p = e" by simp
  from no e have "buf ! e \<noteq> c" by (simp add: occurs_at_single)
  with pe e utf16_skip_1_None[OF bad] show ?case
    by (subst instr_utf16_linear.simps) (simp add: peek_def)
next
  case (Suc j)
  from utf16_skip_Suc[OF Suc.prems(1,2)] obtain p' cp where
    r: "UTF16_ADVANCE buf p (2 * (length buf - p)) = Inr (p', 2 * (length buf - p'), cp)"
      "cp \<noteq> -1" "p < p'" "p' \<le> length buf" "utf16_skip buf j p' = Some e"
    by blast
  from no r have ne: "buf ! p \<noteq> c" by (simp add: occurs_at_single)
  have "instr_utf16_linear buf c p (2 * (length buf - p)) found
          = instr_utf16_linear buf c p' (2 * (length buf - p')) (found + 1)"
    using r ne by (subst instr_utf16_linear.simps) (simp add: peek_def)
  with Suc.IH[OF r(5) r(4)] show ?case by simp
qed

lemma instr_utf16_malformed:
  assumes ne: "needle \<noteq> []" and no: "\<forall>p. \<not> occurs_at hay needle p"
    and k: "utf16_skip hay k 0 = Some e" and e: "e < length hay"
    and bad: "utf16_skip hay 1 e = None"
    and far: "length needle = 1 \<and> start \<le> int k + 1 \<or> e + 2 * length needle \<le> length hay"
  shows "instr_utf16 en hay needle start = Some (Inr (-1))"
proof -
  let ?m = "length needle"
  from ne have m: "1 \<le> ?m" by (cases needle) auto
  from far e m have fits: "\<not> 2 * ?m > 2 * length hay" by auto
  from far e m have pre: "2 * ?m < 2 * (length hay - e) \<or> 2 * ?m = 2 \<and> start \<le> 1 + int k"
    by auto
  from instr_utf16_seek_towards[OF e bad k _ pre]
  consider "instr_utf16_seek hay (2 * ?m) start 0 (2 * length hay) 1 = Some (Inr (Returned (-1)))"
    | p0 f0 j0 where "instr_utf16_seek hay (2 * ?m) start 0 (2 * length hay) 1
                        = Some (Inr (Reached (p0, 2 * (length hay - p0), f0)))"
        "\<not> f0 < start" "p0 \<le> length hay" "utf16_skip hay j0 p0 = Some e"
    by auto
  then show ?thesis
  proof cases
    case 1
    with fits show ?thesis by (simp add: instr_utf16_def)
  next
    case 2
    show ?thesis
    proof (cases "?m > 1")
      case True
      with far have fit: "e + 2 * ?m \<le> length hay" by auto
      have "2 \<le> length (byte_view en needle)" "even (length (byte_view en needle))"
        using True by (simp_all add: length_byte_view)
      then have sk: "\<forall>c. fbmh_setup (byte_view en needle) 1 c \<le> 2 * ?m"
        using fbmh_setup_1_le[of "byte_view en needle"] by (simp add: length_byte_view)
      from instr_utf16_horspool_malformed[OF e bad no fit m sk 2(4) 2(3)]
      have "instr_utf16_horspool en hay needle (fbmh_setup (byte_view en needle) 1) p0
              (2 * (length hay - p0)) p0 f0 = Some (Inr (-1))" .
      with 2 fits True m ne show ?thesis by (simp add: instr_utf16_def)
    next
      case False
      with m have l: "?m = 1" by simp
      then have n1: "needle = [needle ! 0]" by (cases needle) auto
      from no n1 have no1: "\<forall>q. \<not> occurs_at hay [needle ! 0] q" by simp
      from instr_utf16_linear_malformed[OF e bad no1 2(4) 2(3)]
      have "instr_utf16_linear hay (needle ! 0) p0 (2 * (length hay - p0)) f0 = Some (Inr (-1))" .
      with 2 fits l ne show ?thesis by (simp add: instr_utf16_def)
    qed
  qed
qed


lemma occurs_at_first_in_set:
  assumes "needle \<noteq> []" "occurs_at hay needle p"
  shows "needle ! 0 \<in> set hay"
proof -
  from assms have l: "0 < length needle" by simp
  from occurs_at_nth[OF assms(2) l] have "hay ! p = needle ! 0" by simp
  moreover from occurs_at_bound[OF assms(2)] l have "p < length hay" by linarith
  ultimately show ?thesis by (metis nth_mem)
qed

text \<open>
  C6 (as amended). Let a UTF-8 haystack decode for \<open>k\<close> codepoints up to an
  offset \<open>e\<close> inside it at which the next codepoint does not decode, and let a
  non-empty needle occur nowhere in it. Then \<open>instr_utf8\<close> returns \<open>-1\<close>
  (MalformedInput), for every start, when at least twice the needle's length
  is left from \<open>e\<close> on; and also when the needle is a single byte and the
  start position is not behind the malformed content (\<open>start \<le> k + 1\<close>). The
  same holds for \<open>instr_utf16\<close>, with offsets and lengths in 16-bit units.
  (Closer to the end of the haystack the engine may return 0 without having
  decoded the malformed content.)
\<close>

theorem forward_malformed_precedence:
  assumes "needle \<noteq> []" and "\<forall>p. \<not> occurs_at hay needle p"
    and "utf8_skip hay k 0 = Some e" and "e < length hay" and "utf8_skip hay 1 e = None"
    and "length needle = 1 \<and> start \<le> int k + 1 \<or> e + 2 * length needle \<le> length hay"
    and "needle16 \<noteq> []" and "\<forall>p. \<not> occurs_at hay16 needle16 p"
    and "utf16_skip hay16 k16 0 = Some e16" and "e16 < length hay16"
    and "utf16_skip hay16 1 e16 = None"
    and "length needle16 = 1 \<and> start16 \<le> int k16 + 1
         \<or> e16 + 2 * length needle16 \<le> length hay16"
  shows "instr_utf8 hay needle start = Some (Inr (-1))
       \<and> instr_utf16 en hay16 needle16 start16 = Some (Inr (-1))"
  using instr_utf8_malformed[OF assms(1-6)] instr_utf16_malformed[OF assms(7-12)]
  by simp

text \<open>Instances: the haystacks \<open>a, FF, b, c, d, e\<close> and \<open>a, DC00, b, c, d, e\<close> with
  the needle \<open>xy\<close>.\<close>

theorem forward_malformed_precedence_witness:
  "utf8_skip [0x61,0xFF,0x62,0x63,0x64,0x65] 1 0 = Some 1
   \<and> utf8_skip [0x61,0xFF,0x62,0x63,0x64,0x65] 1 1 = None
   \<and> instr_utf8 [0x61,0xFF,0x62,0x63,0x64,0x65] [0x78,0x79] 1 = Some (Inr (-1))
   \<and> utf16_skip [0x61,0xDC00,0x62,0x63,0x64,0x65] 1 0 = Some 1
   \<and> utf16_skip [0x61,0xDC00,0x62,0x63,0x64,0x65] 1 1 = None
   \<and> instr_utf16 LittleEndian [0x61,0xDC00,0x62,0x63,0x64,0x65] [0x78,0x79] 1 = Some (Inr (-1))"
proof -
  let ?h = "[0x61,0xFF,0x62,0x63,0x64,0x65] :: byte list"
  let ?n = "[0x78,0x79] :: byte list"
  let ?h16 = "[0x61,0xDC00,0x62,0x63,0x64,0x65] :: unit16 list"
  let ?n16 = "[0x78,0x79] :: unit16 list"
  have a: "utf8_skip ?h 1 0 = Some 1" "utf8_skip ?h 1 1 = None" by code_simp+
  have b: "utf16_skip ?h16 1 0 = Some 1" "utf16_skip ?h16 1 1 = None" by code_simp+
  have c: "\<forall>p. \<not> occurs_at ?h ?n p"
    using occurs_at_first_in_set[of ?n ?h] by auto
  have d: "\<forall>p. \<not> occurs_at ?h16 ?n16 p"
    using occurs_at_first_in_set[of ?n16 ?h16] by auto
  from forward_malformed_precedence[of ?n ?h 1 1 1 ?n16 ?h16 1 1 1 LittleEndian] a b c d
  have "instr_utf8 ?h ?n 1 = Some (Inr (-1)) \<and> instr_utf16 LittleEndian ?h16 ?n16 1 = Some (Inr (-1))"
    by simp
  with a b show ?thesis by simp
qed

text \<open>
  C6 as stated does not hold. The needle \<open>xy\<close> matches nowhere in the haystacks
  \<open>FF\<close> and \<open>FF, c\<close>, whose first byte does not decode, and the forward
  search from the default start returns 0 for both: for the first because the
  needle is longer than the haystack, for the second because the skip after the
  first comparison leaves less than the needle's length. Likewise for UTF-16.
\<close>

theorem forward_zero_before_malformed:
  "utf8_skip [0xFF] 1 0 = None
   \<and> instr_utf8 [0xFF] [0x78,0x79] 1 = Some (Inr 0)
   \<and> utf8_skip [0xFF,0x63] 1 0 = None
   \<and> instr_utf8 [0xFF,0x63] [0x78,0x79] 1 = Some (Inr 0)
   \<and> utf16_skip [0xDC00,0x63] 1 0 = None
   \<and> instr_utf16 LittleEndian [0xDC00,0x63] [0x78,0x79] 1 = Some (Inr 0)"
  by code_simp

section \<open>Engines that always return\<close>

text \<open>The forward text engines return on every input, malformed or not: every
  round of their loops either leaves the function or decodes a codepoint and
  shortens what is left of the haystack.\<close>

lemma instr_utf8_seek_returns:
  "p + s \<le> length buf \<Longrightarrow>
   (\<exists>r. instr_utf8_seek buf m start p s found = Some (Inr (Returned r)))
   \<or> (\<exists>p' s' f'. instr_utf8_seek buf m start p s found = Some (Inr (Reached (p', s', f')))
          \<and> p' + s' \<le> length buf)"
proof (induction s arbitrary: p found rule: less_induct)
  case (less s)
  show ?case
  proof (cases "found < start \<and> s > m")
    case False
    then have "instr_utf8_seek buf m start p s found = Some (Inr (Reached (p, s, found)))"
      by (subst instr_utf8_seek.simps) auto
    with less.prems show ?thesis by blast
  next
    case True
    from UTF8_ADVANCE_ok[OF less.prems] obtain p' s' cp where
      r: "UTF8_ADVANCE buf p s = Inr (p', s', cp)"
      and c: "cp = -1 \<or> cp \<noteq> -1 \<and> s' < s \<and> p' + s' \<le> length buf"
      using less.prems by (auto simp: adv_ok_def)
    show ?thesis
    proof (cases "cp = -1")
      case True
      with r \<open>found < start \<and> s > m\<close> show ?thesis
        by (subst instr_utf8_seek.simps) simp
    next
      case False
      with c have d: "s' < s" "p' + s' \<le> length buf" by auto
      have "instr_utf8_seek buf m start p s found = instr_utf8_seek buf m start p' s' (found + 1)"
        using r False True by (subst instr_utf8_seek.simps) simp
      with less.IH[OF d] show ?thesis by simp
    qed
  qed
qed

lemma instr_utf8_probe_returns:
  "p + s \<le> length buf \<Longrightarrow> length needle \<le> s \<Longrightarrow> 1 \<le> length needle \<Longrightarrow>
   \<exists>r. instr_utf8_probe buf needle skips p s found = Inr r"
proof -
  assume a: "p + s \<le> length buf" "length needle \<le> s" "1 \<le> length needle"
  then have "p + (length needle - 1) < length buf" by linarith
  then have "peek buf (p + (length needle - 1)) = Inr (buf ! (p + (length needle - 1)))"
    by (simp add: peek_def)
  moreover from a have "p + length needle \<le> length buf" by linarith
  ultimately show ?thesis
    by (simp add: instr_utf8_probe_def memcmp_eq_def)
qed

lemma instr_utf8_horspool_returns:
  assumes m: "1 \<le> length needle"
  shows "p + s \<le> length buf \<Longrightarrow>
         \<exists>r. instr_utf8_horspool buf needle skips p s next found = Some (Inr r)"
proof (induction s arbitrary: p "next" found rule: less_induct)
  case (less s)
  show ?case
  proof (cases "length needle \<le> s")
    case False
    then show ?thesis by (subst instr_utf8_horspool.simps) simp
  next
    case True
    from instr_utf8_probe_returns[OF less.prems True m] obtain pr where
      pr: "instr_utf8_probe buf needle skips p s found = Inr pr" by blast
    from UTF8_ADVANCE_ok[OF less.prems] obtain p' s' cp where
      r: "UTF8_ADVANCE buf p s = Inr (p', s', cp)"
      and c: "cp = -1 \<or> cp \<noteq> -1 \<and> s' < s \<and> p' + s' \<le> length buf"
      using less.prems by (auto simp: adv_ok_def)
    have rec: "\<exists>r. instr_utf8_horspool buf needle skips p' s' n' (found + 1) = Some (Inr r)"
      if "cp \<noteq> -1" for n'
      using less.IH[of s' p'] c that by auto
    show ?thesis
      using True pr r rec
      by (subst instr_utf8_horspool.simps) (auto split: flow.splits)
  qed
qed

lemma instr_utf8_linear_returns:
  "p + s \<le> length buf \<Longrightarrow> \<exists>r. instr_utf8_linear buf c p s found = Some (Inr r)"
proof (induction s arbitrary: p found rule: less_induct)
  case (less s)
  show ?case
  proof (cases "0 < s")
    case False
    then show ?thesis by (subst instr_utf8_linear.simps) simp
  next
    case True
    from UTF8_ADVANCE_ok[OF less.prems] obtain p' s' cp where
      r: "UTF8_ADVANCE buf p s = Inr (p', s', cp)"
      and c: "cp = -1 \<or> cp \<noteq> -1 \<and> s' < s \<and> p' + s' \<le> length buf"
      using less.prems by (auto simp: adv_ok_def)
    have rec: "\<exists>r. instr_utf8_linear buf c p' s' (found + 1) = Some (Inr r)" if "cp \<noteq> -1"
      using less.IH[of s' p'] c that by auto
    show ?thesis
      using True r rec less.prems
      by (subst instr_utf8_linear.simps) (auto simp: peek_def)
  qed
qed

lemma instr_utf8_returns: "\<exists>r. instr_utf8 buf needle start = Some (Inr r)"
proof (cases "length needle > length buf")
  case True
  then show ?thesis by (simp add: instr_utf8_def)
next
  case False
  from instr_utf8_seek_returns[of 0 "length buf" buf "length needle" start 1]
  consider r where "instr_utf8_seek buf (length needle) start 0 (length buf) 1
                      = Some (Inr (Returned r))"
    | p' s' f' where "instr_utf8_seek buf (length needle) start 0 (length buf) 1
                      = Some (Inr (Reached (p', s', f')))" "p' + s' \<le> length buf"
    by auto
  then show ?thesis
  proof cases
    case 1
    with False show ?thesis by (simp add: instr_utf8_def)
  next
    case 2
    from instr_utf8_horspool_returns[OF _ 2(2), of needle "fbmh_setup needle 0" p' f']
    have h: "1 < length needle \<Longrightarrow>
             \<exists>r. instr_utf8_horspool buf needle (fbmh_setup needle 0) p' s' p' f' = Some (Inr r)"
      by simp
    from instr_utf8_linear_returns[OF 2(2), of "needle ! 0" f']
    have l: "\<exists>r. instr_utf8_linear buf (needle ! 0) p' s' f' = Some (Inr r)" .
    from False 2(1) h l show ?thesis
      by (auto simp: instr_utf8_def Let_def)
  qed
qed


lemma instr_utf16_seek_returns:
  "2 * p + s \<le> 2 * length buf \<Longrightarrow>
   (\<exists>r. instr_utf16_seek buf m start p s found = Some (Inr (Returned r)))
   \<or> (\<exists>p' s' f'. instr_utf16_seek buf m start p s found = Some (Inr (Reached (p', s', f')))
          \<and> 2 * p' + s' \<le> 2 * length buf)"
proof (induction s arbitrary: p found rule: less_induct)
  case (less s)
  show ?case
  proof (cases "found < start \<and> s > m")
    case False
    then have "instr_utf16_seek buf m start p s found = Some (Inr (Reached (p, s, found)))"
      by (subst instr_utf16_seek.simps) auto
    with less.prems show ?thesis by blast
  next
    case True
    from UTF16_ADVANCE_ok[OF less.prems] obtain p' s' cp where
      r: "UTF16_ADVANCE buf p s = Inr (p', s', cp)"
      and c: "cp = -1 \<or> cp \<noteq> -1 \<and> s' < s \<and> 2 * p' + s' \<le> 2 * length buf"
      using less.prems by (auto simp: adv16_ok_def)
    show ?thesis
    proof (cases "cp = -1")
      case True
      with r \<open>found < start \<and> s > m\<close> show ?thesis
        by (subst instr_utf16_seek.simps) simp
    next
      case False
      with c have d: "s' < s" "2 * p' + s' \<le> 2 * length buf" by auto
      have "instr_utf16_seek buf m start p s found = instr_utf16_seek buf m start p' s' (found + 1)"
        using r False True by (subst instr_utf16_seek.simps) simp
      with less.IH[OF d] show ?thesis by simp
    qed
  qed
qed

lemma instr_utf16_probe_returns:
  "2 * p + s \<le> 2 * length buf \<Longrightarrow> 2 * length needle \<le> s \<Longrightarrow> 1 \<le> length needle \<Longrightarrow>
   \<exists>r. instr_utf16_probe en buf needle skips p s found = Inr r"
proof -
  assume a: "2 * p + s \<le> 2 * length buf" "2 * length needle \<le> s" "1 \<le> length needle"
  then have "2 * p + (2 * length needle - 1) < length (byte_view en buf)"
    by (simp add: length_byte_view)
  then have "peek (byte_view en buf) (2 * p + (2 * length needle - 1))
               = Inr (byte_view en buf ! (2 * p + (2 * length needle - 1)))"
    by (simp add: peek_def)
  moreover from a have "p + length needle \<le> length buf" by linarith
  ultimately show ?thesis
    by (simp add: instr_utf16_probe_def memcmp_eq_def Let_def)
qed

lemma instr_utf16_horspool_returns:
  assumes m: "1 \<le> length needle"
  shows "2 * p + s \<le> 2 * length buf \<Longrightarrow>
         \<exists>r. instr_utf16_horspool en buf needle skips p s next found = Some (Inr r)"
proof (induction s arbitrary: p "next" found rule: less_induct)
  case (less s)
  show ?case
  proof (cases "2 * length needle \<le> s")
    case False
    then show ?thesis by (subst instr_utf16_horspool.simps) simp
  next
    case True
    from instr_utf16_probe_returns[OF less.prems True m] obtain pr where
      pr: "instr_utf16_probe en buf needle skips p s found = Inr pr" by blast
    from UTF16_ADVANCE_ok[OF less.prems] obtain p' s' cp where
      r: "UTF16_ADVANCE buf p s = Inr (p', s', cp)"
      and c: "cp = -1 \<or> cp \<noteq> -1 \<and> s' < s \<and> 2 * p' + s' \<le> 2 * length buf"
      using less.prems by (auto simp: adv16_ok_def)
    have rec: "\<exists>r. instr_utf16_horspool en buf needle skips p' s' n' (found + 1) = Some (Inr r)"
      if "cp \<noteq> -1" for n'
      using less.IH[of s' p'] c that by auto
    show ?thesis
      using True pr r rec
      by (subst instr_utf16_horspool.simps) (auto split: flow.splits)
  qed
qed

lemma instr_utf16_linear_returns:
  "2 * p + s \<le> 2 * length buf \<Longrightarrow> even s \<Longrightarrow>
   \<exists>r. instr_utf16_linear buf c p s found = Some (Inr r)"
proof (induction s arbitrary: p found rule: less_induct)
  case (less s)
  show ?case
  proof (cases "0 < s")
    case False
    then show ?thesis by (subst instr_utf16_linear.simps) simp
  next
    case True
    with less.prems have pl: "p < length buf" by auto
    from UTF16_ADVANCE_ok[OF less.prems(1)] obtain p' s' cp where
      r: "UTF16_ADVANCE buf p s = Inr (p', s', cp)"
      and c: "cp = -1 \<or> cp \<noteq> -1 \<and> s' < s \<and> 2 * p' + s' \<le> 2 * length buf \<and> even s'"
      using less.prems by (auto simp: adv16_ok_def)
    have rec: "\<exists>r. instr_utf16_linear buf c p' s' (found + 1) = Some (Inr r)" if "cp \<noteq> -1"
      using less.IH[of s' p'] c that by auto
    show ?thesis
      using True r rec pl
      by (subst instr_utf16_linear.simps) (auto simp: peek_def)
  qed
qed

lemma instr_utf16_seek_even:
  "even s \<Longrightarrow> 2 * p + s \<le> 2 * length buf \<Longrightarrow>
   instr_utf16_seek buf m start p s found = Some (Inr (Reached (p', s', f'))) \<Longrightarrow> even s'"
proof (induction s arbitrary: p found rule: less_induct)
  case (less s)
  show ?case
  proof (cases "found < start \<and> s > m")
    case False
    with less.prems(3) have "s' = s"
      by (subst (asm) instr_utf16_seek.simps) auto
    with less.prems(1) show ?thesis by simp
  next
    case True
    from UTF16_ADVANCE_ok[OF less.prems(2)] obtain q t cp where
      r: "UTF16_ADVANCE buf p s = Inr (q, t, cp)"
      and c: "cp = -1 \<or> cp \<noteq> -1 \<and> t < s \<and> 2 * q + t \<le> 2 * length buf \<and> even t"
      using less.prems by (auto simp: adv16_ok_def)
    from less.prems(3) r True have ne: "cp \<noteq> -1"
      by (subst (asm) instr_utf16_seek.simps) (auto split: if_splits)
    from less.prems(3) r True ne
    have "instr_utf16_seek buf m start q t (found + 1) = Some (Inr (Reached (p', s', f')))"
      by (subst (asm) instr_utf16_seek.simps) simp
    with less.IH[of t q "found + 1"] c ne show ?thesis by auto
  qed
qed

lemma instr_utf16_returns: "\<exists>r. instr_utf16 en buf needle start = Some (Inr r)"
proof (cases "2 * length needle > 2 * length buf")
  case True
  then show ?thesis by (simp add: instr_utf16_def)
next
  case False
  have pre: "2 * 0 + 2 * length buf \<le> 2 * length buf" by simp
  from instr_utf16_seek_returns[OF pre, of "2 * length needle" start 1]
  consider r where "instr_utf16_seek buf (2 * length needle) start 0 (2 * length buf) 1
                      = Some (Inr (Returned r))"
    | p' s' f' where "instr_utf16_seek buf (2 * length needle) start 0 (2 * length buf) 1
                      = Some (Inr (Reached (p', s', f')))" "2 * p' + s' \<le> 2 * length buf"
    by auto
  then show ?thesis
  proof cases
    case 1
    with False show ?thesis by (simp add: instr_utf16_def)
  next
    case 2
    have ev: "even s'"
      by (rule instr_utf16_seek_even[OF _ pre 2(1)]) simp
    from instr_utf16_horspool_returns[OF _ 2(2), of needle en
           "fbmh_setup (byte_view en needle) 1" p' f']
    have h: "1 < length needle \<Longrightarrow>
             \<exists>r. instr_utf16_horspool en buf needle (fbmh_setup (byte_view en needle) 1)
                    p' s' p' f' = Some (Inr r)"
      by simp
    from instr_utf16_linear_returns[OF 2(2) ev, of "needle ! 0" f']
    have l: "\<exists>r. instr_utf16_linear buf (needle ! 0) p' s' f' = Some (Inr r)" .
    from False 2(1) h l show ?thesis
      by (auto simp: instr_utf16_def Let_def)
  qed
qed

text \<open>
  Four of the six engines return on every input: the raw ones and the forward
  text ones.
\<close>

lemma forward_and_raw_engines_return:
  "(\<exists>r. instr_blob buf needle start = Some (Inr r))
   \<and> (\<exists>r. rinstr_blob buf needle start = Some (Inr r))
   \<and> (\<exists>r. instr_utf8 buf needle start = Some (Inr r))
   \<and> (\<exists>r. instr_utf16 en buf16 needle16 start = Some (Inr r))"
  using instr_blob_range[of buf needle start] rinstr_blob_range[of buf needle start]
    instr_utf8_returns[of buf needle start] instr_utf16_returns[of en buf16 needle16 start]
  by blast

end
